theory Spec2Isabelle
  imports Main "HOL-Library.AList" "HOL-Library.Sublist" "HOL-Library.Word"
    "HOL-Library.Code_Target_Numeral"
begin

section \<open>The data-access hook \<open>useOptimizedData\<close> (src/hooks/useOptimizedData.ts)\<close>

text \<open>
  The hook keeps five pieces of component state (\<open>data\<close>, \<open>loading\<close>, \<open>error\<close>,
  \<open>cache\<close>, \<open>version\<close>) and shares one module-level map, \<open>activeListeners\<close>, with every
  other instance of itself. It talks to the document store through \<open>getDocs\<close>,
  \<open>onSnapshot\<close> and \<open>updateDoc\<close>. The model below passes the component state and the
  shared world explicitly, takes the store's answers as an environment, and logs every
  call that crosses the boundary in a trace.
\<close>

subsection \<open>Values, records and filter objects\<close>

text \<open>
  Filter values and record fields are JavaScript values (\<open>Record<string, any>\<close>). The
  call sites pass strings. The model covers \<open>undefined\<close>, \<open>null\<close>, booleans, strings,
  functions (any callable value), and of the numbers \<open>NaN\<close>, the two infinities and the
  integers from \<open>-2^53\<close> to \<open>2^53 - 1\<close>: a 54-bit word read as a signed number, so that
  every \<open>JNum\<close> is a number the language has and prints digit by digit. Fractions,
  larger magnitudes (printed in exponent form from \<open>1e21\<close>) and structured values
  (arrays, nested objects, dates) are outside the model; negative zero is not told
  from zero. A string is its sequence of bytes; text is assumed well formed, so no
  lone surrogate occurs. An object is the list of its own enumerable properties in the
  order \<open>Object.entries\<close> and \<open>JSON.stringify\<close> enumerate them; property names are
  distinct in a real object.
\<close>

datatype jsvalue =
    JUndefined
  | JNull
  | JBool bool
  | JNum "54 word"
  | JNaN
  | JInfinity
  | JNegInfinity
  | JStr string
  | JFunction

type_synonym jsobject = "(string \<times> jsvalue) list"

subsection \<open>\<open>JSON.stringify\<close> on a filter object\<close>

definition digit_char :: "nat \<Rightarrow> char" where
  "digit_char n = char_of (48 + n)"

fun digits :: "nat \<Rightarrow> string" where
  "digits n = (if n < 10 then [digit_char n] else digits (n div 10) @ [digit_char (n mod 10)])"

declare digits.simps [simp del]

text \<open>\<open>Number::toString\<close> on an integer of magnitude below \<open>1e21\<close> prints a minus sign
  if it is negative and then its decimal digits; every \<open>JNum\<close> is in that range.\<close>

definition number_to_string :: "54 word \<Rightarrow> string" where
  "number_to_string n =
     (if sint n < 0 then CHR ''-'' # digits (nat (- sint n)) else digits (nat (sint n)))"

definition hex_digit :: "nat \<Rightarrow> char" where
  "hex_digit n = (if n < 10 then char_of (48 + n) else char_of (87 + n))"

text \<open>\<open>QuoteJSONString\<close>: the two-character escapes, \<open>\u00xx\<close> for the other control
  characters, every other character as it is.\<close>

definition quote_char :: "char \<Rightarrow> string" where
  "quote_char c =
     (if c = CHR 0x08 then [CHR 0x5C, CHR ''b'']
      else if c = CHR 0x09 then [CHR 0x5C, CHR ''t'']
      else if c = CHR 0x0A then [CHR 0x5C, CHR ''n'']
      else if c = CHR 0x0C then [CHR 0x5C, CHR ''f'']
      else if c = CHR 0x0D then [CHR 0x5C, CHR ''r'']
      else if c = CHR 0x22 then [CHR 0x5C, CHR 0x22]
      else if c = CHR 0x5C then [CHR 0x5C, CHR 0x5C]
      else if (of_char c :: nat) < 32
        then [CHR 0x5C, CHR ''u'', CHR ''0'', CHR ''0'',
              hex_digit ((of_char c :: nat) div 16), hex_digit ((of_char c :: nat) mod 16)]
      else [c])"

definition quote_json_string :: "string \<Rightarrow> string" where
  "quote_json_string s = CHR 0x22 # concat (map quote_char s) @ [CHR 0x22]"

text \<open>\<open>SerializeJSONProperty\<close>: a property whose value is \<open>undefined\<close> or callable is left
  out of the output (\<open>None\<close>); a number that is not finite is written as \<open>null\<close>.\<close>

fun stringify_value :: "jsvalue \<Rightarrow> string option" where
  "stringify_value JUndefined = None"
| "stringify_value JFunction = None"
| "stringify_value JNull = Some ''null''"
| "stringify_value (JBool b) = Some (if b then ''true'' else ''false'')"
| "stringify_value (JNum n) = Some (number_to_string n)"
| "stringify_value JNaN = Some ''null''"
| "stringify_value JInfinity = Some ''null''"
| "stringify_value JNegInfinity = Some ''null''"
| "stringify_value (JStr s) = Some (quote_json_string s)"

fun stringify_entries :: "jsobject \<Rightarrow> string list" where
  "stringify_entries [] = []"
| "stringify_entries ((k, v) # es) =
     (case stringify_value v of
        None \<Rightarrow> stringify_entries es
      | Some s \<Rightarrow> (quote_json_string k @ CHR '':'' # s) # stringify_entries es)"

fun join_comma :: "string list \<Rightarrow> string" where
  "join_comma [] = []"
| "join_comma [s] = s"
| "join_comma (s # t # ss) = s @ CHR '','' # join_comma (t # ss)"

text \<open>\<open>JSON.stringify\<close> on an object whose properties are the given entries. Before
  it writes a value, \<open>SerializeJSONProperty\<close> calls the value's \<open>toJSON\<close> method if it
  has one; of the values of the model only an object with a callable property of that
  name has one, and what is written then is up to that function. The definition
  is the output for an object without it.\<close>

definition has_toJSON :: "jsobject \<Rightarrow> bool" where
  "has_toJSON obj \<longleftrightarrow> map_of obj ''toJSON'' = Some JFunction"

definition json_stringify :: "jsobject \<Rightarrow> string" where
  "json_stringify obj = CHR ''{'' # join_comma (stringify_entries obj) @ [CHR ''}'']"

subsection \<open>Property order and object spread\<close>

definition is_digit :: "char \<Rightarrow> bool" where
  "is_digit c \<longleftrightarrow> 48 \<le> (of_char c :: nat) \<and> (of_char c :: nat) \<le> 57"

definition digit_val :: "char \<Rightarrow> nat" where
  "digit_val c = of_char c - 48"

definition dec_val :: "string \<Rightarrow> nat" where
  "dec_val s = fold (\<lambda>c a. 10 * a + digit_val c) s 0"

text \<open>A property name is an array index when it is the decimal numeral of a number
  below \<open>2^32 - 1\<close>, written without leading zeros.\<close>

definition is_array_index :: "string \<Rightarrow> bool" where
  "is_array_index k \<longleftrightarrow> digits (dec_val k) = k \<and> dec_val k < 4294967295"

text \<open>\<open>OrdinaryOwnPropertyKeys\<close>: an object enumerates its array-index names first, in
  ascending numeric order, and then its other names in the order they were created.\<close>

definition js_order :: "jsobject \<Rightarrow> jsobject" where
  "js_order ps =
     sort_key (\<lambda>(k, v). dec_val k) (filter (\<lambda>(k, v). is_array_index k) ps) @
     filter (\<lambda>(k, v). \<not> is_array_index k) ps"

text \<open>Object spread \<open>{...a, ...b}\<close>: a new object that receives the properties of \<open>a\<close>
  and then those of \<open>b\<close>, each assignment overwriting the value of a name already there
  or creating the name; the result enumerates in property order.\<close>

definition spread :: "jsobject \<Rightarrow> jsobject \<Rightarrow> jsobject" where
  "spread a b = js_order (fold (\<lambda>(k, v) acc. AList.update k v acc) b a)"

subsection \<open>Options and keys\<close>

record UseOptimizedDataOptions =
  cacheTime :: int
  staleTime :: int
  backgroundUpdate :: bool
  optimisticUpdates :: bool

text \<open>The defaults of the destructuring: 5 minutes, 30 seconds, and both switches on.\<close>

definition default_options :: UseOptimizedDataOptions where
  "default_options =
     \<lparr>cacheTime = 5 * 60 * 1000, staleTime = 30 * 1000,
      backgroundUpdate = True, optimisticUpdates = True\<rparr>"

text \<open>The arguments of one hook instance.\<close>

record props =
  collectionName :: string
  filters :: jsobject
  options :: UseOptimizedDataOptions

definition cacheKey :: "props \<Rightarrow> string" where
  "cacheKey p = collectionName p @ CHR '':'' # json_stringify (filters p)"

definition listenerKey :: "props \<Rightarrow> string" where
  "listenerKey p =
     collectionName p @ CHR '':'' # json_stringify (filters p) @
     CHR '':'' # (if backgroundUpdate (options p) then ''true'' else ''false'')"

subsection \<open>Queries and the document store\<close>

text \<open>A query is a collection with the equality constraints added by
  \<open>query(q, where(key, '==', value))\<close>, in the order they were added.\<close>

record query =
  q_collection :: string
  q_wheres :: "(string \<times> jsvalue) list"

definition collection :: "string \<Rightarrow> query" where
  "collection c = \<lparr>q_collection = c, q_wheres = []\<rparr>"

definition query_where :: "query \<Rightarrow> string \<Rightarrow> jsvalue \<Rightarrow> query" where
  "query_where q k v = q\<lparr>q_wheres := q_wheres q @ [(k, v)]\<rparr>"

text \<open>The loop over \<open>Object.entries(filters)\<close>, written out twice in the source
  (in \<open>fetchData\<close> and in the listener effect) with the same text. \<open>collection\<close>,
  \<open>query\<close> and \<open>where\<close> are taken to build the query and nothing more: what the store's
  client library does with a constraint value it does not accept is outside this
  repository and is not modelled.\<close>

definition build_query :: "string \<Rightarrow> jsobject \<Rightarrow> query" where
  "build_query c f =
     fold (\<lambda>(key, value) q.
             if value \<noteq> JUndefined \<and> value \<noteq> JNull then query_where q key value else q)
          f (collection c)"

text \<open>A stored document: its id and its fields. The store answers a query with the
  documents of the collection that satisfy every constraint of the query.\<close>

record doc =
  doc_id :: string
  doc_data :: jsobject

definition doc_matches :: "query \<Rightarrow> doc \<Rightarrow> bool" where
  "doc_matches q d = list_all (\<lambda>(k, v). map_of (doc_data d) k = Some v) (q_wheres q)"

text \<open>\<open>snapshot.docs.map(doc => ({ id: doc.id, ...doc.data() }))\<close>\<close>

definition to_item :: "doc \<Rightarrow> jsobject" where
  "to_item d = spread [(''id'', JStr (doc_id d))] (doc_data d)"

text \<open>What a rejected promise carries: an \<open>Error\<close> with its message, or anything else.\<close>

datatype thrown = ErrorObj string | OtherThrown

definition error_message :: "thrown \<Rightarrow> string" where
  "error_message e = (case e of ErrorObj m \<Rightarrow> m | OtherThrown \<Rightarrow> ''Unknown error'')"

text \<open>The store as the hook sees it: the outcome of a one-shot read of a query and of a
  partial write to one document.\<close>

record remote =
  getDocs :: "query \<Rightarrow> thrown + doc list"
  updateDoc :: "string \<Rightarrow> string \<Rightarrow> jsobject \<Rightarrow> thrown option"

subsection \<open>Component state and the shared world\<close>

record CacheItem =
  cdata :: "jsobject list"
  timestamp :: int
  cversion :: int

record hook_state =
  data :: "jsobject list"
  loading :: bool
  error :: "string option"
  cache :: "(string \<times> CacheItem) list"
  version :: int

text \<open>The state of a freshly mounted hook.\<close>

definition initial_state :: hook_state where
  "initial_state = \<lparr>data = [], loading = True, error = None, cache = [], version = 0\<rparr>"

text \<open>A standing subscription at the store: the handle \<open>onSnapshot\<close> returned (its
  number), the listener key it was registered under, and its query.\<close>

record subscription =
  sub_id :: nat
  sub_key :: string
  sub_query :: query

datatype event =
    RemoteRead query
  | RemoteWrite string string jsobject
  | RollbackCalled
  | Subscribed nat query
  | Unsubscribed nat

text \<open>The world outside one component: the module-level \<open>activeListeners\<close> map (key to
  unsubscribe handle, in insertion order), the subscriptions standing at the store, the
  next fresh handle and the trace of calls made so far.\<close>

record world =
  activeListeners :: "(string \<times> nat) list"
  live :: "subscription list"
  next_handle :: nat
  trace :: "event list"

definition initial_world :: world where
  "initial_world = \<lparr>activeListeners = [], live = [], next_handle = 0, trace = []\<rparr>"

definition emit :: "event \<Rightarrow> world \<Rightarrow> world" where
  "emit e w = w\<lparr>trace := trace w @ [e]\<rparr>"

subsection \<open>\<open>fetchData\<close>\<close>

definition isDataFresh :: "props \<Rightarrow> int \<Rightarrow> CacheItem \<Rightarrow> bool" where
  "isDataFresh p now cacheItem = (now - timestamp cacheItem < staleTime (options p))"

text \<open>The test \<open>cached && !forceRefresh && isDataFresh(cached)\<close>: the entry to serve,
  if there is one.\<close>

definition cache_hit :: "props \<Rightarrow> int \<Rightarrow> bool \<Rightarrow> hook_state \<Rightarrow> CacheItem option" where
  "cache_hit p now forceRefresh st =
     (case map_of (cache st) (cacheKey p) of
        None \<Rightarrow> None
      | Some cached \<Rightarrow> if \<not> forceRefresh \<and> isDataFresh p now cached then Some cached else None)"

text \<open>\<open>fetchData\<close> reads the clock twice: \<open>t_check\<close> in \<open>isDataFresh\<close> and \<open>t_store\<close>
  when it builds the new cache entry. \<open>finally\<close> clears \<open>loading\<close> on every path. A call
  is taken as a whole, on the state of the latest render: the \<open>cache\<close> and \<open>version\<close> its
  closure holds are the current ones, and nothing else touches the state while it
  awaits \<open>getDocs\<close>.\<close>

definition fetchData ::
  "props \<Rightarrow> remote \<Rightarrow> int \<Rightarrow> int \<Rightarrow> bool \<Rightarrow> hook_state \<times> world \<Rightarrow> hook_state \<times> world" where
  "fetchData p r t_check t_store forceRefresh sw =
     (let st = fst sw; w = snd sw;
          st1 = st\<lparr>loading := True, error := None\<rparr>
      in case cache_hit p t_check forceRefresh st of
           Some cached \<Rightarrow> (st1\<lparr>data := cdata cached, loading := False\<rparr>, w)
         | None \<Rightarrow>
             (let q = build_query (collectionName p) (filters p);
                  w1 = emit (RemoteRead q) w
              in case getDocs r q of
                   Inl err \<Rightarrow> (st1\<lparr>error := Some (error_message err), loading := False\<rparr>, w1)
                 | Inr docs \<Rightarrow>
                     (let result = map to_item docs;
                          newCache = AList.update (cacheKey p)
                            \<lparr>cdata = result, timestamp = t_store, cversion = version st + 1\<rparr>
                            (cache st)
                      in (st1\<lparr>cache := newCache, version := version st + 1,
                              data := result, loading := False\<rparr>, w1))))"

text \<open>The number of one-shot reads in a trace.\<close>

definition remote_reads :: "event list \<Rightarrow> nat" where
  "remote_reads es = length (filter (\<lambda>e. case e of RemoteRead _ \<Rightarrow> True | _ \<Rightarrow> False) es)"

subsection \<open>The listener effect and the two teardowns\<close>

text \<open>Calling the handle \<open>onSnapshot\<close> returned ends that subscription at the store.\<close>

definition unsubscribe :: "nat \<Rightarrow> world \<Rightarrow> world" where
  "unsubscribe h w = emit (Unsubscribed h) (w\<lparr>live := filter (\<lambda>s. sub_id s \<noteq> h) (live w)\<rparr>)"

text \<open>The effect body. It returns the new world and whether it handed React a cleanup
  function: only the run that registered the listener does.\<close>

definition listener_effect :: "props \<Rightarrow> world \<Rightarrow> world \<times> bool" where
  "listener_effect p w =
     (if \<not> backgroundUpdate (options p) then (w, False)
      else if map_of (activeListeners w) (listenerKey p) \<noteq> None then (w, False)
      else
        (let q = build_query (collectionName p) (filters p);
             h = next_handle w;
             w1 = emit (Subscribed h q)
                    (w\<lparr>live := live w @ [\<lparr>sub_id = h, sub_key = listenerKey p, sub_query = q\<rparr>],
                       next_handle := Suc h\<rparr>)
         in (w1\<lparr>activeListeners := AList.update (listenerKey p) h (activeListeners w1)\<rparr>, True)))"

text \<open>\<open>const cleanup = activeListeners.get(key); if (cleanup) { cleanup();
  activeListeners.delete(key); }\<close>, the body shared by both teardowns.\<close>

definition remove_listener :: "string \<Rightarrow> world \<Rightarrow> world" where
  "remove_listener key w =
     (case map_of (activeListeners w) key of
        None \<Rightarrow> w
      | Some h \<Rightarrow>
          (let w1 = unsubscribe h w
           in w1\<lparr>activeListeners := AList.delete key (activeListeners w1)\<rparr>))"

text \<open>The function the listener effect returns.\<close>

definition listener_cleanup :: "props \<Rightarrow> world \<Rightarrow> world" where
  "listener_cleanup p w = remove_listener (listenerKey p) w"

text \<open>The cleanup of the unmount effect: collect the keys that start with the
  collection name and a colon, then remove each.\<close>

definition unmount_cleanup :: "props \<Rightarrow> world \<Rightarrow> world" where
  "unmount_cleanup p w =
     (let keysToRemove =
            filter (\<lambda>key. prefix (collectionName p @ '':'') key) (map fst (activeListeners w))
      in fold remove_listener keysToRemove w)"

text \<open>Unmounting runs the cleanups in the order the effects were declared: the
  listener effect's (if that run returned one), then the unmount effect's.\<close>

definition unmount :: "props \<Rightarrow> bool \<Rightarrow> world \<Rightarrow> world" where
  "unmount p registered w =
     unmount_cleanup p (if registered then listener_cleanup p w else w)"

text \<open>Mounting one more consumer: its listener effect runs on the shared world.\<close>

definition mount :: "props \<Rightarrow> world \<Rightarrow> world" where
  "mount p w = fst (listener_effect p w)"

subsection \<open>\<open>optimisticUpdate\<close>\<close>

definition patch_item :: "string \<Rightarrow> jsobject \<Rightarrow> jsobject \<Rightarrow> jsobject" where
  "patch_item itemId updates item =
     (if map_of item ''id'' = Some (JStr itemId) then spread item updates else item)"

text \<open>The part that runs before the first \<open>await\<close>: the guard, the local patch, and the
  write handed to the store. \<open>None\<close> is the early \<open>return\<close>.\<close>

definition optimisticUpdate_start ::
  "props \<Rightarrow> string \<Rightarrow> jsobject \<Rightarrow> hook_state \<times> world \<Rightarrow> (hook_state \<times> world) option" where
  "optimisticUpdate_start p itemId updates sw =
     (if \<not> optimisticUpdates (options p) then None
      else Some ((fst sw)\<lparr>data := map (patch_item itemId updates) (data (fst sw))\<rparr>,
                 emit (RemoteWrite (collectionName p) itemId updates) (snd sw)))"

text \<open>The part after the \<open>await\<close>. \<open>rollback\<close> says whether the caller passed a
  rollback closure; calling it is logged.\<close>

definition optimisticUpdate_settle ::
  "props \<Rightarrow> remote \<Rightarrow> int \<Rightarrow> int \<Rightarrow> string \<Rightarrow> jsobject \<Rightarrow> bool \<Rightarrow>
   hook_state \<times> world \<Rightarrow> hook_state \<times> world" where
  "optimisticUpdate_settle p r t_check t_store itemId updates rollback sw =
     (case updateDoc r (collectionName p) itemId updates of
        None \<Rightarrow> sw
      | Some err \<Rightarrow>
          fetchData p r t_check t_store True
            (fst sw, if rollback then emit RollbackCalled (snd sw) else snd sw))"

definition optimisticUpdate ::
  "props \<Rightarrow> remote \<Rightarrow> int \<Rightarrow> int \<Rightarrow> string \<Rightarrow> jsobject \<Rightarrow> bool \<Rightarrow>
   hook_state \<times> world \<Rightarrow> hook_state \<times> world" where
  "optimisticUpdate p r t_check t_store itemId updates rollback sw =
     (case optimisticUpdate_start p itemId updates sw of
        None \<Rightarrow> sw
      | Some sw1 \<Rightarrow> optimisticUpdate_settle p r t_check t_store itemId updates rollback sw1)"

subsection \<open>The cache cleanup\<close>

text \<open>One run of the interval callback at time \<open>now\<close>: copy the cache, delete every
  entry older than \<open>cacheTime\<close> while walking it, and store the copy if anything went.\<close>

definition sweep :: "props \<Rightarrow> int \<Rightarrow> hook_state \<Rightarrow> hook_state" where
  "sweep p now st =
     (let res = fold (\<lambda>(key, item) (newCache, cleaned).
                        if now - timestamp item > cacheTime (options p)
                        then (AList.delete key newCache, True)
                        else (newCache, cleaned))
                     (cache st) (cache st, False)
      in if snd res then st\<lparr>cache := fst res\<rparr> else st)"

text \<open>\<open>setInterval(\<dots>, 60000)\<close>: the callback runs every 60000 ms after the effect
  started at \<open>t0\<close>; \<open>run_sweeper p t0 n\<close> is the state after the first \<open>n\<close> runs, the
  cache not being written by anything else in between. (A run that stores a new cache
  makes React restart the effect at that moment, which puts the next run 60000 ms
  later all the same.)\<close>

definition cleanup_interval :: int where
  "cleanup_interval = 60000"

fun run_sweeper :: "props \<Rightarrow> int \<Rightarrow> nat \<Rightarrow> hook_state \<Rightarrow> hook_state" where
  "run_sweeper p t0 0 st = st"
| "run_sweeper p t0 (Suc n) st =
     run_sweeper p (t0 + cleanup_interval) n (sweep p (t0 + cleanup_interval) st)"

subsection \<open>Observations on the shared world\<close>

text \<open>The subscriptions standing at the store for one listener key, and the number of
  subscriptions a trace shows being opened.\<close>

definition subs_for :: "string \<Rightarrow> world \<Rightarrow> subscription list" where
  "subs_for key w = filter (\<lambda>s. sub_key s = key) (live w)"

definition subscriptions_created :: "event list \<Rightarrow> nat" where
  "subscriptions_created es =
     length (filter (\<lambda>e. case e of Subscribed _ _ \<Rightarrow> True | _ \<Rightarrow> False) es)"

text \<open>The registry and the store agree: keys and handles are unique, the standing
  subscriptions are exactly the registered (key, handle) pairs, and every handle in use
  is older than the next fresh one.\<close>

definition registry_ok :: "world \<Rightarrow> bool" where
  "registry_ok w \<longleftrightarrow>
     distinct (map fst (activeListeners w)) \<and>
     distinct (map sub_id (live w)) \<and>
     set (map (\<lambda>s. (sub_key s, sub_id s)) (live w)) = set (activeListeners w) \<and>
     list_all (\<lambda>s. sub_id s < next_handle w) (live w)"

text \<open>The worlds any number of hook instances can produce: each may run its listener
  effect, the cleanup that effect returned, or its unmount cleanup, in any order.\<close>

inductive reachable :: "world \<Rightarrow> bool" where
  start: "reachable initial_world"
| effect: "reachable w \<Longrightarrow> reachable (fst (listener_effect p w))"
| cleanup: "reachable w \<Longrightarrow> reachable (listener_cleanup p w)"
| unmounted: "reachable w \<Longrightarrow> reachable (unmount_cleanup p w)"

subsection \<open>Reading the output of \<open>JSON.stringify\<close> back\<close>

text \<open>Notions used to show that the serialisation can be read back unambiguously.\<close>

definition escaped :: "char \<Rightarrow> bool" where
  "escaped c \<longleftrightarrow> c = CHR 0x22 \<or> c = CHR 0x5C \<or> (of_char c :: nat) < 32"

text \<open>What can be read off the output: the value a reader of the JSON text gets back
  for a property, if the property was written at all. \<open>NaN\<close> and the infinities come
  back as \<open>null\<close>; \<open>undefined\<close> and functions do not come back.\<close>

fun json_image :: "jsvalue \<Rightarrow> jsvalue option" where
  "json_image JUndefined = None"
| "json_image JFunction = None"
| "json_image JNull = Some JNull"
| "json_image (JBool b) = Some (JBool b)"
| "json_image (JNum n) = Some (JNum n)"
| "json_image JNaN = Some JNull"
| "json_image JInfinity = Some JNull"
| "json_image JNegInfinity = Some JNull"
| "json_image (JStr s) = Some (JStr s)"

text \<open>The entries of an object as they are written, in enumeration order.\<close>

fun written_entries :: "jsobject \<Rightarrow> jsobject" where
  "written_entries [] = []"
| "written_entries ((k, v) # es) =
     (case json_image v of
        None \<Rightarrow> written_entries es
      | Some v' \<Rightarrow> (k, v') # written_entries es)"

text \<open>What follows a value inside an object: a comma or the closing brace.\<close>

definition delimited :: "string \<Rightarrow> bool" where
  "delimited r \<longleftrightarrow> (\<exists>t. r = CHR '','' # t \<or> r = CHR ''}'' # t)"

subsection \<open>Example inputs\<close>

text \<open>The employees of company A, as the checks screen would ask for them, with the
  default options; the same query with optimistic updates switched off; a store that
  answers and one that is unreachable.\<close>

definition employees_props :: props where
  "employees_props =
     \<lparr>collectionName = ''employees'', filters = [(''companyId'', JStr ''A'')],
      options = default_options\<rparr>"

definition plain_props :: props where
  "plain_props = employees_props\<lparr>options := default_options\<lparr>optimisticUpdates := False\<rparr>\<rparr>"

definition employees_docs :: "doc list" where
  "employees_docs = [\<lparr>doc_id = ''e1'', doc_data = [(''name'', JStr ''Al'')]\<rparr>]"

definition store_up :: remote where
  "store_up = \<lparr>getDocs = (\<lambda>q. Inr employees_docs), updateDoc = (\<lambda>c i u. None)\<rparr>"

definition store_down :: remote where
  "store_down = \<lparr>getDocs = (\<lambda>q. Inl (ErrorObj ''offline'')),
                  updateDoc = (\<lambda>c i u. Some OtherThrown)\<rparr>"

definition employees_entry :: CacheItem where
  "employees_entry = \<lparr>cdata = map to_item employees_docs, timestamp = 0, cversion = 1\<rparr>"

text \<open>The component after its first successful load at time 0.\<close>

definition loaded_state :: hook_state where
  "loaded_state =
     \<lparr>data = map to_item employees_docs, loading = False, error = None,
      cache = [(cacheKey employees_props, employees_entry)], version = 1\<rparr>"

text \<open>One filter object written in two property orders, and one with an \<open>undefined\<close>
  and a \<open>null\<close> value.\<close>

definition f_ab :: jsobject where
  "f_ab = [(''a'', JNum 1), (''b'', JNum 2)]"

definition f_ba :: jsobject where
  "f_ba = [(''b'', JNum 2), (''a'', JNum 1)]"

definition f_sparse :: jsobject where
  "f_sparse = [(''companyId'', JStr ''A''), (''clientId'', JNull), (''active'', JUndefined)]"

text \<open>Three objects that differ in the value of their one property, and one where it
  is a function.\<close>

definition f_null :: jsobject where
  "f_null = [(''a'', JNull)]"

definition f_nan :: jsobject where
  "f_nan = [(''a'', JNaN)]"

definition f_infinity :: jsobject where
  "f_infinity = [(''a'', JInfinity)]"

definition f_callback :: jsobject where
  "f_callback = [(''a'', JFunction)]"

section \<open>Decimal numerals and property order\<close>

lemma digit_char_props: "n < 10 \<Longrightarrow> is_digit (digit_char n) \<and> digit_val (digit_char n) = n"
  by (simp add: is_digit_def digit_val_def digit_char_def)

lemma digits_all_digit: "list_all is_digit (digits n) \<and> digits n \<noteq> []"
proof (induction n rule: digits.induct)
  case (1 n)
  show ?case
  proof (cases "n < 10")
    case True
    then show ?thesis by (simp add: digits.simps[of n] digit_char_props)
  next
    case False
    have "n mod 10 < 10" by simp
    then have "is_digit (digit_char (n mod 10))" using digit_char_props by blast
    then show ?thesis using 1[OF False] False by (simp add: digits.simps[of n])
  qed
qed

lemma dec_val_digits: "dec_val (digits n) = n"
proof (induction n rule: digits.induct)
  case (1 n)
  show ?case
  proof (cases "n < 10")
    case True
    then show ?thesis by (simp add: digits.simps[of n] dec_val_def digit_char_props)
  next
    case False
    have "n mod 10 < 10" by simp
    then have "digit_val (digit_char (n mod 10)) = n mod 10" using digit_char_props by blast
    then show ?thesis using 1[OF False] False
      by (simp add: digits.simps[of n] dec_val_def)
  qed
qed

lemma digits_inj: "digits n = digits m \<Longrightarrow> n = m"
  by (metis dec_val_digits)

lemma array_index_digits: "is_array_index k \<Longrightarrow> list_all is_digit k"
  using digits_all_digit[of "dec_val k"] by (simp add: is_array_index_def)

lemma not_array_index: "\<not> list_all is_digit k \<Longrightarrow> is_array_index k = False"
  using array_index_digits by blast

lemma map_of_only_key: "map_of ps k = map_of (filter (\<lambda>e. fst e = k) ps) k"
  by (induction ps) auto

lemma map_of_filter_key:
  "map_of (filter (\<lambda>e. Q (fst e)) ps) k = (if Q k then map_of ps k else None)"
  by (induction ps) auto

lemma map_of_sort_key:
  "map_of (sort_key (\<lambda>e. g (fst e)) ps) k = map_of ps k"
proof -
  have "filter (\<lambda>e. fst e = k) (sort_key (\<lambda>e. g (fst e)) ps) =
        filter (\<lambda>e. fst e = k) (filter (\<lambda>e. g (fst e) = g k) (sort_key (\<lambda>e. g (fst e)) ps))"
    by (auto simp: filter_filter intro!: filter_cong)
  also have "\<dots> = filter (\<lambda>e. fst e = k) (filter (\<lambda>e. g (fst e) = g k) ps)"
    by (simp only: sort_key_stable)
  also have "\<dots> = filter (\<lambda>e. fst e = k) ps"
    by (auto simp: filter_filter intro!: filter_cong)
  finally show ?thesis
    using map_of_only_key[of "sort_key (\<lambda>e. g (fst e)) ps" k] map_of_only_key[of ps k]
    by simp
qed

lemma map_of_js_order: "map_of (js_order ps) k = map_of ps k"
proof -
  have s: "(\<lambda>(k, v). dec_val k) = (\<lambda>e. dec_val (fst e))"
    and a: "(\<lambda>(k, v). is_array_index k) = (\<lambda>e. is_array_index (fst e))"
    and b: "(\<lambda>(k, v). \<not> is_array_index k) = (\<lambda>e. \<not> is_array_index (fst e))"
    by (simp_all add: fun_eq_iff split_beta)
  show ?thesis
    unfolding js_order_def s a b
    using map_of_filter_key[where Q = is_array_index and ps = ps and k = k]
      map_of_filter_key[where Q = "\<lambda>k. \<not> is_array_index k" and ps = ps and k = k]
    by (simp add: map_add_def map_of_sort_key split: option.splits)
qed

lemma js_order_names:
  "list_all (\<lambda>(k, v). \<not> list_all is_digit k) ps \<Longrightarrow> js_order ps = ps"
proof -
  assume "list_all (\<lambda>(k, v). \<not> list_all is_digit k) ps"
  then have n: "\<And>e. e \<in> set ps \<Longrightarrow> \<not> is_array_index (fst e)"
    using array_index_digits by (auto simp: list_all_iff)
  have "filter (\<lambda>(k, v). is_array_index k) ps = []"
    using n by (auto simp: filter_empty_conv)
  moreover have "filter (\<lambda>(k, v). \<not> is_array_index k) ps = ps"
    using n by (auto simp: filter_id_conv)
  ultimately show ?thesis by (simp add: js_order_def)
qed

section \<open>Properties of \<open>fetchData\<close>\<close>

lemma trace_emit: "trace (emit e w) = trace w @ [e]"
  by (simp add: emit_def)

lemma cache_hit_force: "cache_hit p t True st = None"
  by (simp add: cache_hit_def split: option.splits)

lemma build_query_fold:
  "fold (\<lambda>(key, value) q.
           if value \<noteq> JUndefined \<and> value \<noteq> JNull then query_where q key value else q) f q0
   = q0\<lparr>q_wheres := q_wheres q0 @ filter (\<lambda>(k, v). v \<noteq> JUndefined \<and> v \<noteq> JNull) f\<rparr>"
  by (induction f arbitrary: q0) (auto simp: query_where_def)

lemma build_query_eq:
  "build_query c f =
     \<lparr>q_collection = c, q_wheres = filter (\<lambda>(k, v). v \<noteq> JUndefined \<and> v \<noteq> JNull) f\<rparr>"
  by (simp add: build_query_def build_query_fold collection_def)

lemma employees_query:
  "build_query (collectionName employees_props) (filters employees_props) =
     \<lparr>q_collection = ''employees'', q_wheres = [(''companyId'', JStr ''A'')]\<rparr>"
  by (simp add: build_query_eq employees_props_def)

lemma loaded_state_lookup:
  "map_of (cache loaded_state) (cacheKey employees_props) = Some employees_entry"
  by (simp add: loaded_state_def)

text \<open>
  C2. When the cache holds an entry for the key that is younger than \<open>staleTime\<close> and
  the call does not force a refresh, \<open>fetchData\<close> makes no remote read: the world,
  trace included, is left as it was; the data handed to the consumer is the cached
  payload; the cache and the version counter are unchanged.
\<close>

theorem fetchData_fresh_cache_hit:
  assumes "map_of (cache st) (cacheKey p) = Some cached"
    and "t_check - timestamp cached < staleTime (options p)"
  shows "snd (fetchData p r t_check t_store False (st, w)) = w \<and>
         remote_reads (trace (snd (fetchData p r t_check t_store False (st, w)))) =
           remote_reads (trace w) \<and>
         fst (fetchData p r t_check t_store False (st, w)) =
           st\<lparr>data := cdata cached, loading := False, error := None\<rparr> \<and>
         map_of (cache (fst (fetchData p r t_check t_store False (st, w)))) (cacheKey p) =
           Some cached \<and>
         version (fst (fetchData p r t_check t_store False (st, w))) = version st"
  using assms by (simp add: fetchData_def cache_hit_def isDataFresh_def)

theorem fetchData_fresh_cache_hit_witness:
  "map_of (cache loaded_state) (cacheKey employees_props) = Some employees_entry \<and>
   10000 - timestamp employees_entry < staleTime (options employees_props) \<and>
   fetchData employees_props store_down 10000 10001 False (loaded_state, initial_world) =
     (loaded_state, initial_world)"
proof -
  have fresh: "10000 - timestamp employees_entry < staleTime (options employees_props)"
    by (simp add: employees_entry_def employees_props_def default_options_def)
  have same: "loaded_state\<lparr>data := cdata employees_entry, loading := False, error := None\<rparr> =
              loaded_state"
    by (simp add: loaded_state_def employees_entry_def)
  show ?thesis
    using fetchData_fresh_cache_hit[OF loaded_state_lookup fresh,
        where r = store_down and t_store = 10001 and w = initial_world]
      loaded_state_lookup fresh
    by (simp add: same prod_eq_iff)
qed

text \<open>
  C3. When \<open>fetchData\<close> goes to the store (no fresh entry is served) and the read
  fails, the failure reaches the caller as the error string, \<open>loading\<close> is cleared, and
  the cache, the version counter and the data are exactly what they were before the
  call; the one read attempted is the only thing added to the trace.
\<close>

theorem fetchData_failed_read:
  assumes "cache_hit p t_check forceRefresh st = None"
    and "getDocs r (build_query (collectionName p) (filters p)) = Inl err"
  shows "error (fst (fetchData p r t_check t_store forceRefresh (st, w))) =
           Some (error_message err) \<and>
         loading (fst (fetchData p r t_check t_store forceRefresh (st, w))) = False \<and>
         cache (fst (fetchData p r t_check t_store forceRefresh (st, w))) = cache st \<and>
         version (fst (fetchData p r t_check t_store forceRefresh (st, w))) = version st \<and>
         data (fst (fetchData p r t_check t_store forceRefresh (st, w))) = data st \<and>
         trace (snd (fetchData p r t_check t_store forceRefresh (st, w))) =
           trace w @ [RemoteRead (build_query (collectionName p) (filters p))]"
  using assms by (simp add: fetchData_def trace_emit Let_def)

theorem fetchData_failed_read_witness:
  "cache_hit employees_props 40000 True loaded_state = None \<and>
   getDocs store_down (build_query (collectionName employees_props) (filters employees_props)) =
     Inl (ErrorObj ''offline'') \<and>
   error (fst (fetchData employees_props store_down 40000 40001 True
                 (loaded_state, initial_world))) = Some ''offline'' \<and>
   loading (fst (fetchData employees_props store_down 40000 40001 True
                   (loaded_state, initial_world))) = False \<and>
   map_of (cache (fst (fetchData employees_props store_down 40000 40001 True
                         (loaded_state, initial_world)))) (cacheKey employees_props) =
     Some employees_entry"
proof -
  have down: "getDocs store_down
                (build_query (collectionName employees_props) (filters employees_props)) =
              Inl (ErrorObj ''offline'')"
    by (simp add: store_down_def)
  show ?thesis
    using fetchData_failed_read[OF cache_hit_force down,
        where t_check = 40000 and st = loaded_state and t_store = 40001
          and w = initial_world] down
    by (simp add: cache_hit_force error_message_def loaded_state_lookup)
qed

text \<open>
  C6. With \<open>forceRefresh = true\<close>, whatever the cache holds, \<open>fetchData\<close> makes exactly
  one remote read. If the read succeeds, the result is stored under the key as an
  entry stamped with the clock reading taken at the store and carrying the version
  counter plus one, the counter itself goes up by one, and the result is the data
  handed to the consumer.
\<close>

theorem fetchData_forced_refresh:
  "trace (snd (fetchData p r t_check t_store True (st, w))) =
     trace w @ [RemoteRead (build_query (collectionName p) (filters p))] \<and>
   remote_reads (trace (snd (fetchData p r t_check t_store True (st, w)))) =
     remote_reads (trace w) + 1 \<and>
   (\<forall>docs. getDocs r (build_query (collectionName p) (filters p)) = Inr docs \<longrightarrow>
      map_of (cache (fst (fetchData p r t_check t_store True (st, w)))) (cacheKey p) =
        Some \<lparr>cdata = map to_item docs, timestamp = t_store, cversion = version st + 1\<rparr> \<and>
      version (fst (fetchData p r t_check t_store True (st, w))) = version st + 1 \<and>
      data (fst (fetchData p r t_check t_store True (st, w))) = map to_item docs \<and>
      loading (fst (fetchData p r t_check t_store True (st, w))) = False \<and>
      error (fst (fetchData p r t_check t_store True (st, w))) = None)"
  by (auto simp add: fetchData_def cache_hit_force trace_emit Let_def remote_reads_def
      update_conv' split: sum.splits)

theorem fetchData_forced_refresh_witness:
  "10000 - timestamp employees_entry < staleTime (options employees_props) \<and>
   getDocs store_up (build_query (collectionName employees_props) (filters employees_props)) =
     Inr employees_docs \<and>
   trace (snd (fetchData employees_props store_up 10000 10001 True
                 (loaded_state, initial_world))) =
     [RemoteRead \<lparr>q_collection = ''employees'', q_wheres = [(''companyId'', JStr ''A'')]\<rparr>] \<and>
   map_of (cache (fst (fetchData employees_props store_up 10000 10001 True
                         (loaded_state, initial_world)))) (cacheKey employees_props) =
     Some \<lparr>cdata = map to_item employees_docs, timestamp = 10001, cversion = 2\<rparr> \<and>
   version (fst (fetchData employees_props store_up 10000 10001 True
                   (loaded_state, initial_world))) = 2"
proof -
  have fresh: "10000 - timestamp employees_entry < staleTime (options employees_props)"
    by (simp add: employees_entry_def employees_props_def default_options_def)
  have up: "getDocs store_up
              (build_query (collectionName employees_props) (filters employees_props)) =
            Inr employees_docs"
    by (simp add: store_up_def)
  have v: "version loaded_state = 1" and t: "trace initial_world = []"
    by (simp_all add: loaded_state_def initial_world_def)
  show ?thesis
    using fetchData_forced_refresh[where p = employees_props and r = store_up
        and t_check = 10000 and t_store = 10001 and st = loaded_state
        and w = initial_world] fresh up
    by (simp add: v t employees_query)
qed

text \<open>
  The scenario of the specification: employees of company A, \<open>staleTime\<close> 30000. The
  first load at time 0 reads from the store and leaves \<open>loaded_state\<close>; a second load
  at 10000 serves the cache without a read; a third at 40000 reads again.
\<close>

lemma employees_first_load:
  "fetchData employees_props store_up 0 0 False (initial_state, initial_world) =
     (loaded_state,
      initial_world\<lparr>trace := [RemoteRead (build_query (collectionName employees_props)
                                              (filters employees_props))]\<rparr>)"
  by (simp add: fetchData_def cache_hit_def initial_state_def initial_world_def emit_def
      store_up_def loaded_state_def employees_entry_def Let_def)

lemma employees_three_loads:
  "remote_reads (trace (snd (fetchData employees_props store_up 0 0 False
      (initial_state, initial_world)))) = 1 \<and>
   remote_reads (trace (snd (fetchData employees_props store_up 10000 10000 False
      (fetchData employees_props store_up 0 0 False (initial_state, initial_world))))) = 1 \<and>
   remote_reads (trace (snd (fetchData employees_props store_up 40000 40000 False
      (fetchData employees_props store_up 10000 10000 False
        (fetchData employees_props store_up 0 0 False (initial_state, initial_world)))))) = 2"
proof -
  let ?w1 = "initial_world\<lparr>trace := [RemoteRead (build_query (collectionName employees_props)
                                              (filters employees_props))]\<rparr>"
  have fresh: "isDataFresh employees_props 10000 employees_entry"
    and stale: "\<not> isDataFresh employees_props 40000 employees_entry"
    by (simp_all add: isDataFresh_def employees_entry_def employees_props_def default_options_def)
  have second: "fetchData employees_props store_up 10000 10000 False (loaded_state, ?w1) =
                (loaded_state, ?w1)"
    using fresh
    by (simp add: fetchData_def cache_hit_def loaded_state_lookup)
       (simp add: loaded_state_def employees_entry_def)
  have third: "trace (snd (fetchData employees_props store_up 40000 40000 False
                 (loaded_state, ?w1))) =
               trace ?w1 @ [RemoteRead (build_query (collectionName employees_props)
                                              (filters employees_props))]"
    using stale
    by (simp add: fetchData_def cache_hit_def loaded_state_lookup Let_def trace_emit
        split: sum.splits)
  show ?thesis
    unfolding employees_first_load second
    by (simp add: third remote_reads_def)
qed

section \<open>The query built from the filters\<close>

text \<open>
  C7. The query \<open>fetchData\<close> reads with, and the query the listener effect subscribes
  with, is the collection constrained by exactly those filter entries whose value is
  neither \<open>undefined\<close> nor \<open>null\<close>, each as an equality on its key, in enumeration
  order; a document satisfies the query iff it satisfies every one of them. Entries
  with an \<open>undefined\<close> or \<open>null\<close> value add no constraint.
\<close>

theorem query_applies_defined_filters:
  "q_collection (build_query (collectionName p) (filters p)) = collectionName p \<and>
   q_wheres (build_query (collectionName p) (filters p)) =
     filter (\<lambda>(k, v). v \<noteq> JUndefined \<and> v \<noteq> JNull) (filters p) \<and>
   (doc_matches (build_query (collectionName p) (filters p)) d \<longleftrightarrow>
      (\<forall>(k, v) \<in> set (filters p).
          v \<noteq> JUndefined \<and> v \<noteq> JNull \<longrightarrow> map_of (doc_data d) k = Some v)) \<and>
   (cache_hit p t_check forceRefresh st = None \<longrightarrow>
      trace (snd (fetchData p r t_check t_store forceRefresh (st, w))) =
        trace w @ [RemoteRead (build_query (collectionName p) (filters p))]) \<and>
   (snd (listener_effect p w) \<longrightarrow>
      trace (fst (listener_effect p w)) =
        trace w @ [Subscribed (next_handle w) (build_query (collectionName p) (filters p))] \<and>
      map sub_query (live (fst (listener_effect p w))) =
        map sub_query (live w) @ [build_query (collectionName p) (filters p)])"
proof -
  have m: "doc_matches (build_query (collectionName p) (filters p)) d \<longleftrightarrow>
      (\<forall>(k, v) \<in> set (filters p).
          v \<noteq> JUndefined \<and> v \<noteq> JNull \<longrightarrow> map_of (doc_data d) k = Some v)"
    by (auto simp: doc_matches_def build_query_eq list_all_iff)
  have f: "cache_hit p t_check forceRefresh st = None \<longrightarrow>
      trace (snd (fetchData p r t_check t_store forceRefresh (st, w))) =
        trace w @ [RemoteRead (build_query (collectionName p) (filters p))]"
    by (simp add: fetchData_def Let_def trace_emit split: sum.splits)
  have l: "snd (listener_effect p w) \<longrightarrow>
      trace (fst (listener_effect p w)) =
        trace w @ [Subscribed (next_handle w) (build_query (collectionName p) (filters p))] \<and>
      map sub_query (live (fst (listener_effect p w))) =
        map sub_query (live w) @ [build_query (collectionName p) (filters p)]"
    by (simp add: listener_effect_def Let_def trace_emit emit_def)
  show ?thesis using m f l by (simp add: build_query_eq)
qed

theorem query_applies_defined_filters_witness:
  "q_wheres (build_query ''checks'' f_sparse) = [(''companyId'', JStr ''A'')] \<and>
   doc_matches (build_query ''checks'' f_sparse)
     \<lparr>doc_id = ''c1'', doc_data = [(''amount'', JNum 120), (''companyId'', JStr ''A'')]\<rparr> \<and>
   \<not> doc_matches (build_query ''checks'' f_sparse)
     \<lparr>doc_id = ''c2'', doc_data = [(''amount'', JNum 80), (''companyId'', JStr ''B'')]\<rparr> \<and>
   snd (listener_effect \<lparr>collectionName = ''checks'', filters = f_sparse,
                         options = default_options\<rparr> initial_world) \<and>
   trace (fst (listener_effect \<lparr>collectionName = ''checks'', filters = f_sparse,
                                options = default_options\<rparr> initial_world)) =
     [Subscribed 0 \<lparr>q_collection = ''checks'', q_wheres = [(''companyId'', JStr ''A'')]\<rparr>]"
proof -
  let ?p = "\<lparr>collectionName = ''checks'', filters = f_sparse, options = default_options\<rparr>"
  note t = query_applies_defined_filters[where p = ?p and w = initial_world]
  have q: "filter (\<lambda>(k, v). v \<noteq> JUndefined \<and> v \<noteq> JNull) f_sparse =
           [(''companyId'', JStr ''A'')]"
    by (simp add: f_sparse_def)
  from t have "q_wheres (build_query ''checks'' f_sparse) =
               filter (\<lambda>(k, v). v \<noteq> JUndefined \<and> v \<noteq> JNull) f_sparse"
    by simp
  then have a: "q_wheres (build_query ''checks'' f_sparse) = [(''companyId'', JStr ''A'')]"
    by (simp only: q)
  have b: "build_query ''checks'' f_sparse =
           \<lparr>q_collection = ''checks'', q_wheres = [(''companyId'', JStr ''A'')]\<rparr>"
    by (simp add: build_query_eq q)
  have d1: "doc_matches (build_query ''checks'' f_sparse)
     \<lparr>doc_id = ''c1'', doc_data = [(''amount'', JNum 120), (''companyId'', JStr ''A'')]\<rparr>"
    and d2: "\<not> doc_matches (build_query ''checks'' f_sparse)
     \<lparr>doc_id = ''c2'', doc_data = [(''amount'', JNum 80), (''companyId'', JStr ''B'')]\<rparr>"
    unfolding b by (simp_all add: doc_matches_def)
  have s: "snd (listener_effect ?p initial_world)"
    by (simp add: listener_effect_def default_options_def initial_world_def Let_def)
  from t s have "trace (fst (listener_effect ?p initial_world)) =
      trace initial_world @ [Subscribed (next_handle initial_world) (build_query ''checks'' f_sparse)]"
    by simp
  then have e: "trace (fst (listener_effect ?p initial_world)) =
     [Subscribed 0 \<lparr>q_collection = ''checks'', q_wheres = [(''companyId'', JStr ''A'')]\<rparr>]"
    unfolding b by (simp add: initial_world_def)
  show ?thesis using a d1 d2 s e by (intro conjI)
qed

section \<open>Optimistic updates\<close>

lemma map_of_fold_update:
  "distinct (map fst b) \<Longrightarrow>
   map_of (fold (\<lambda>(k, v) acc. AList.update k v acc) b a) k =
     (case map_of b k of Some v \<Rightarrow> Some v | None \<Rightarrow> map_of a k)"
proof (induction b arbitrary: a)
  case Nil
  then show ?case by simp
next
  case (Cons e b)
  obtain k' v' where e: "e = (k', v')" by (cases e)
  have d: "distinct (map fst b)" and n: "k' \<notin> fst ` set b"
    using Cons.prems e by auto
  have n': "map_of b k' = None" using n by (simp add: map_of_eq_None_iff)
  show ?case
    using Cons.IH[OF d, of "AList.update k' v' a"] n'
    by (simp add: e update_conv' split: option.splits)
qed

lemma map_of_spread:
  "distinct (map fst b) \<Longrightarrow>
   map_of (spread a b) k = (case map_of b k of Some v \<Rightarrow> Some v | None \<Rightarrow> map_of a k)"
  unfolding spread_def by (simp add: map_of_js_order map_of_fold_update)

lemma fetchData_forced_trace:
  "trace (snd (fetchData p r t_check t_store True (st, w))) =
     trace w @ [RemoteRead (build_query (collectionName p) (filters p))]"
  by (simp add: fetchData_def cache_hit_force Let_def trace_emit split: sum.splits)

text \<open>
  C10. With the \<open>optimisticUpdates\<close> option off, \<open>optimisticUpdate\<close> returns at its
  first line: the component state (the data array included) and the world are what
  they were, so nothing was written to the store, nothing was refetched and the
  rollback was not called, since each of these would have been added to the trace.
\<close>

theorem optimisticUpdate_disabled_noop:
  assumes "\<not> optimisticUpdates (options p)"
  shows "optimisticUpdate p r t_check t_store itemId updates rollback (st, w) = (st, w) \<and>
         optimisticUpdate_start p itemId updates (st, w) = None"
  using assms by (simp add: optimisticUpdate_def optimisticUpdate_start_def)

theorem optimisticUpdate_disabled_noop_witness:
  "\<not> optimisticUpdates (options plain_props) \<and>
   optimisticUpdate plain_props store_down 10000 10001 ''e1'' [(''name'', JStr ''Bo'')] True
     (loaded_state, initial_world) = (loaded_state, initial_world)"
proof -
  have off: "\<not> optimisticUpdates (options plain_props)"
    by (simp add: plain_props_def)
  show ?thesis
    using optimisticUpdate_disabled_noop[OF off, where r = store_down and t_check = 10000
        and t_store = 10001 and itemId = "''e1''" and updates = "[(''name'', JStr ''Bo'')]"
        and rollback = True and st = loaded_state and w = initial_world] off
    by simp
qed

text \<open>
  C5. With optimistic updates on (the default), \<open>optimisticUpdate\<close> first patches the
  local data, before the write has been answered: the array keeps its length, every
  record whose \<open>id\<close> is the given one has each field of the update overwritten or added
  and its other fields kept, every other record is untouched, and cache and version
  are as before; the write is then handed to the store. If the write succeeds nothing
  else happens. If it fails, the rollback is called when one was supplied, and then
  \<open>fetchData\<close> runs with \<open>forceRefresh = true\<close> on the patched state, which reads from
  the store once.
\<close>

theorem optimisticUpdate_patches_then_recovers:
  assumes "optimisticUpdates (options p)" and "distinct (map fst updates)"
  shows "\<exists>st1 w1.
      optimisticUpdate_start p itemId updates (st, w) = Some (st1, w1) \<and>
      length (data st1) = length (data st) \<and>
      (\<forall>i < length (data st).
         (map_of (data st ! i) ''id'' = Some (JStr itemId) \<longrightarrow>
            (\<forall>k. map_of (data st1 ! i) k =
                   (case map_of updates k of
                      Some v \<Rightarrow> Some v
                    | None \<Rightarrow> map_of (data st ! i) k))) \<and>
         (map_of (data st ! i) ''id'' \<noteq> Some (JStr itemId) \<longrightarrow>
            data st1 ! i = data st ! i)) \<and>
      cache st1 = cache st \<and> version st1 = version st \<and>
      trace w1 = trace w @ [RemoteWrite (collectionName p) itemId updates] \<and>
      (updateDoc r (collectionName p) itemId updates = None \<longrightarrow>
         optimisticUpdate p r t_check t_store itemId updates rollback (st, w) = (st1, w1)) \<and>
      (updateDoc r (collectionName p) itemId updates \<noteq> None \<longrightarrow>
         optimisticUpdate p r t_check t_store itemId updates rollback (st, w) =
           fetchData p r t_check t_store True
             (st1, if rollback then emit RollbackCalled w1 else w1) \<and>
         trace (snd (optimisticUpdate p r t_check t_store itemId updates rollback (st, w))) =
           trace w @ [RemoteWrite (collectionName p) itemId updates] @
           (if rollback then [RollbackCalled] else []) @
           [RemoteRead (build_query (collectionName p) (filters p))])"
proof -
  let ?st1 = "st\<lparr>data := map (patch_item itemId updates) (data st)\<rparr>"
  let ?w1 = "emit (RemoteWrite (collectionName p) itemId updates) w"
  have s: "optimisticUpdate_start p itemId updates (st, w) = Some (?st1, ?w1)"
    using assms(1) by (simp add: optimisticUpdate_start_def)
  have m: "map_of (data ?st1 ! i) k =
             (case map_of updates k of Some v \<Rightarrow> Some v | None \<Rightarrow> map_of (data st ! i) k)"
    if "i < length (data st)" and "map_of (data st ! i) ''id'' = Some (JStr itemId)" for i k
    using that assms(2) by (simp add: patch_item_def map_of_spread)
  have u: "data ?st1 ! i = data st ! i"
    if "i < length (data st)" and "map_of (data st ! i) ''id'' \<noteq> Some (JStr itemId)" for i
    using that by (simp add: patch_item_def)
  have ok: "optimisticUpdate p r t_check t_store itemId updates rollback (st, w) = (?st1, ?w1)"
    if "updateDoc r (collectionName p) itemId updates = None"
    using that by (simp add: optimisticUpdate_def s optimisticUpdate_settle_def)
  have fail: "optimisticUpdate p r t_check t_store itemId updates rollback (st, w) =
           fetchData p r t_check t_store True
             (?st1, if rollback then emit RollbackCalled ?w1 else ?w1)"
    if "updateDoc r (collectionName p) itemId updates \<noteq> None"
    using that by (auto simp add: optimisticUpdate_def s optimisticUpdate_settle_def)
  have ftr: "trace (snd (optimisticUpdate p r t_check t_store itemId updates rollback (st, w))) =
           trace w @ [RemoteWrite (collectionName p) itemId updates] @
           (if rollback then [RollbackCalled] else []) @
           [RemoteRead (build_query (collectionName p) (filters p))]"
    if "updateDoc r (collectionName p) itemId updates \<noteq> None"
    unfolding fail[OF that] fetchData_forced_trace by (simp add: trace_emit)
  show ?thesis
    apply (rule exI[of _ ?st1], rule exI[of _ ?w1])
    using s m u ok fail ftr by (simp add: trace_emit)
qed

theorem optimisticUpdate_patches_then_recovers_witness:
  "optimisticUpdates (options employees_props) \<and>
   distinct (map fst [(''name'', JStr ''Bo'')]) \<and>
   data loaded_state = [[(''id'', JStr ''e1''), (''name'', JStr ''Al'')]] \<and>
   (\<exists>st1 w1. optimisticUpdate_start employees_props ''e1'' [(''name'', JStr ''Bo'')]
                (loaded_state, initial_world) = Some (st1, w1) \<and>
              data st1 = [[(''id'', JStr ''e1''), (''name'', JStr ''Bo'')]]) \<and>
   updateDoc store_down (collectionName employees_props) ''e1'' [(''name'', JStr ''Bo'')] \<noteq> None \<and>
   trace (snd (optimisticUpdate employees_props store_down 10000 10001 ''e1''
                 [(''name'', JStr ''Bo'')] True (loaded_state, initial_world))) =
     [RemoteWrite ''employees'' ''e1'' [(''name'', JStr ''Bo'')], RollbackCalled,
      RemoteRead \<lparr>q_collection = ''employees'', q_wheres = [(''companyId'', JStr ''A'')]\<rparr>]"
proof -
  have on: "optimisticUpdates (options employees_props)"
    by (simp add: employees_props_def default_options_def)
  have dist: "distinct (map fst [(''name'', JStr ''Bo'')])"
    by simp
  have d0: "data loaded_state = [[(''id'', JStr ''e1''), (''name'', JStr ''Al'')]]"
    by (simp add: loaded_state_def employees_docs_def to_item_def spread_def js_order_names is_digit_def)
  have st: "\<exists>st1 w1. optimisticUpdate_start employees_props ''e1'' [(''name'', JStr ''Bo'')]
                (loaded_state, initial_world) = Some (st1, w1) \<and>
              data st1 = [[(''id'', JStr ''e1''), (''name'', JStr ''Bo'')]]"
    using on by (simp add: optimisticUpdate_start_def d0 patch_item_def spread_def js_order_names is_digit_def)
  have down: "updateDoc store_down (collectionName employees_props) ''e1''
                [(''name'', JStr ''Bo'')] \<noteq> None"
    by (simp add: store_down_def)
  have c: "collectionName employees_props = ''employees''" and t: "trace initial_world = []"
    by (simp_all add: employees_props_def initial_world_def)
  from optimisticUpdate_patches_then_recovers[OF on dist, where r = store_down
      and itemId = "''e1''" and rollback = True and st = loaded_state and w = initial_world
      and t_check = 10000 and t_store = 10001] down
  have "trace (snd (optimisticUpdate employees_props store_down 10000 10001 ''e1''
                 [(''name'', JStr ''Bo'')] True (loaded_state, initial_world))) =
     trace initial_world @
     [RemoteWrite (collectionName employees_props) ''e1'' [(''name'', JStr ''Bo'')]] @
     (if True then [RollbackCalled] else []) @
     [RemoteRead (build_query (collectionName employees_props) (filters employees_props))]"
    by blast
  then have tr: "trace (snd (optimisticUpdate employees_props store_down 10000 10001 ''e1''
                 [(''name'', JStr ''Bo'')] True (loaded_state, initial_world))) =
     [RemoteWrite ''employees'' ''e1'' [(''name'', JStr ''Bo'')], RollbackCalled,
      RemoteRead \<lparr>q_collection = ''employees'', q_wheres = [(''companyId'', JStr ''A'')]\<rparr>]"
    unfolding employees_query by (simp add: c t)
  show ?thesis using on dist d0 st down tr by (intro conjI)
qed

section \<open>The cache cleanup\<close>

lemma delete_distinct_entry:
  assumes "distinct (map fst nc)" and "(k, item) \<in> set nc"
  shows "AList.delete k nc = filter (\<lambda>e. e \<noteq> (k, item)) nc"
  unfolding AList.delete_eq
proof (rule filter_cong[OF refl])
  fix x assume x: "x \<in> set nc"
  obtain k' i' where xe: "x = (k', i')" by (cases x)
  have "k' = k \<Longrightarrow> i' = item"
    using assms x xe by (metis eq_key_imp_eq_value)
  then show "(case x of (k', _) \<Rightarrow> k \<noteq> k') = (x \<noteq> (k, item))"
    using xe by auto
qed

lemma sweep_fold:
  "distinct (map fst nc) \<Longrightarrow> set es \<subseteq> set nc \<Longrightarrow> distinct (map fst es) \<Longrightarrow>
   fold (\<lambda>(key, item) (newCache, cleaned).
                        if now - timestamp item > ct
                        then (AList.delete key newCache, True)
                        else (newCache, cleaned)) es (nc, b)
   = (filter (\<lambda>e. e \<in> set es \<longrightarrow> \<not> now - timestamp (snd e) > ct) nc,
      b \<or> (\<exists>e \<in> set es. now - timestamp (snd e) > ct))"
proof (induction es arbitrary: nc b)
  case Nil
  then show ?case by simp
next
  case (Cons e es)
  obtain k item where e: "e = (k, item)" by (cases e)
  have notin: "(k, item) \<notin> set es"
    using Cons.prems(3) e by (auto simp: image_iff)
  have des: "distinct (map fst es)"
    using Cons.prems(3) by simp
  show ?case
  proof (cases "now - timestamp item > ct")
    case True
    have d: "AList.delete k nc = filter (\<lambda>e. e \<noteq> (k, item)) nc"
      using Cons.prems e by (intro delete_distinct_entry) auto
    have dd: "distinct (map fst (filter (\<lambda>e. e \<noteq> (k, item)) nc))"
      using Cons.prems(1) by (simp add: distinct_map_filter)
    have "set es \<subseteq> set (filter (\<lambda>e. e \<noteq> (k, item)) nc)"
      using Cons.prems(2) notin by auto
    from Cons.IH[OF dd this des, of True] True e show ?thesis
      by (auto simp: d intro!: filter_cong)
  next
    case False
    have "set es \<subseteq> set nc" using Cons.prems(2) by simp
    from Cons.IH[OF Cons.prems(1) this des, of b] False e show ?thesis
      by (auto intro!: filter_cong)
  qed
qed

lemma sweep_cache:
  assumes "distinct (map fst (cache st))"
  shows "cache (sweep p now st) =
         filter (\<lambda>(k, item). \<not> now - timestamp item > cacheTime (options p)) (cache st)"
proof -
  let ?P = "\<lambda>e. now - timestamp (snd e) > cacheTime (options p)"
  have f: "fold (\<lambda>(key, item) (newCache, cleaned).
                        if now - timestamp item > cacheTime (options p)
                        then (AList.delete key newCache, True)
                        else (newCache, cleaned)) (cache st) (cache st, False)
      = (filter (\<lambda>e. e \<in> set (cache st) \<longrightarrow> \<not> ?P e) (cache st), False \<or> (\<exists>e \<in> set (cache st). ?P e))"
    by (rule sweep_fold[OF assms subset_refl assms])
  have g: "filter (\<lambda>e. e \<in> set (cache st) \<longrightarrow> \<not> ?P e) (cache st)
      = filter (\<lambda>(k, item). \<not> now - timestamp item > cacheTime (options p)) (cache st)"
    by (auto intro!: filter_cong)
  show ?thesis
  proof (cases "\<exists>e \<in> set (cache st). ?P e")
    case True
    then show ?thesis by (simp add: sweep_def f g)
  next
    case False
    then have "filter (\<lambda>(k, item). \<not> now - timestamp item > cacheTime (options p)) (cache st) = cache st"
      by (auto simp: filter_id_conv)
    with False show ?thesis by (simp add: sweep_def f)
  qed
qed

text \<open>The cache is a \<open>Map\<close>: its keys are distinct when the hook mounts, and
  \<open>fetchData\<close> and the cleanup keep them so.\<close>

lemma cache_keys_distinct_initial: "distinct (map fst (cache initial_state))"
  by (simp add: initial_state_def)

lemma cache_keys_distinct_fetchData:
  assumes "distinct (map fst (cache st))"
  shows "distinct (map fst (cache (fst (fetchData p r t_check t_store forceRefresh (st, w)))))"
  using assms
  by (simp add: fetchData_def Let_def distinct_update split: option.splits sum.splits)

lemma cache_keys_distinct_sweep:
  assumes "distinct (map fst (cache st))"
  shows "distinct (map fst (cache (sweep p now st)))"
  using assms by (simp add: sweep_cache distinct_map_filter)

lemma sweep_others:
  "data (sweep p now st) = data st \<and> loading (sweep p now st) = loading st \<and>
   error (sweep p now st) = error st \<and> version (sweep p now st) = version st"
  by (simp add: sweep_def Let_def)

lemma run_sweeper_Suc:
  "run_sweeper p t0 (Suc n) st = sweep p (t0 + int (Suc n) * cleanup_interval) (run_sweeper p t0 n st)"
proof (induction n arbitrary: t0 st)
  case 0
  then show ?case by simp
next
  case (Suc n)
  have "run_sweeper p t0 (Suc (Suc n)) st =
        run_sweeper p (t0 + cleanup_interval) (Suc n) (sweep p (t0 + cleanup_interval) st)"
    by simp
  also have "\<dots> = sweep p (t0 + cleanup_interval + int (Suc n) * cleanup_interval)
                    (run_sweeper p (t0 + cleanup_interval) n (sweep p (t0 + cleanup_interval) st))"
    by (rule Suc.IH)
  finally show ?case by (simp add: algebra_simps)
qed

lemma map_of_filter_distinct_None:
  assumes "distinct (map fst xs)" and "map_of xs k = Some v" and "\<not> P (k, v)"
  shows "map_of (filter P xs) k = None"
proof (rule ccontr)
  assume "map_of (filter P xs) k \<noteq> None"
  then obtain v' where "map_of (filter P xs) k = Some v'" by auto
  then have "(k, v') \<in> set (filter P xs)" by (rule map_of_SomeD)
  then have "(k, v') \<in> set xs" and "P (k, v')" by auto
  moreover have "(k, v) \<in> set xs" using assms(2) by (rule map_of_SomeD)
  ultimately show False using assms(1,3) by (auto dest: eq_key_imp_eq_value)
qed

text \<open>
  C8. One run of the cleanup callback at time \<open>now\<close> removes from the cache exactly
  the entries with \<open>now - timestamp > cacheTime\<close> and keeps the others as they are, in
  their order; data and version are not touched. If the entry of this hook's key was
  among the removed ones, the next \<open>fetchData\<close>, even without \<open>forceRefresh\<close>, reads
  from the store. The callback is on a 60000 ms interval: its run number \<open>n + 1\<close> after
  the effect started at \<open>t0\<close> happens at \<open>t0 + (n + 1) * 60000\<close> on the state the first
  \<open>n\<close> runs left.
\<close>

theorem sweep_evicts_expired:
  assumes "distinct (map fst (cache st))"
  shows "cache (sweep p now st) =
           filter (\<lambda>(k, item). \<not> now - timestamp item > cacheTime (options p)) (cache st) \<and>
         data (sweep p now st) = data st \<and> version (sweep p now st) = version st \<and>
         (\<forall>item. map_of (cache st) (cacheKey p) = Some item \<and>
                 now - timestamp item > cacheTime (options p) \<longrightarrow>
            map_of (cache (sweep p now st)) (cacheKey p) = None \<and>
            trace (snd (fetchData p r t_check t_store False (sweep p now st, w))) =
              trace w @ [RemoteRead (build_query (collectionName p) (filters p))]) \<and>
         run_sweeper p t0 (Suc n) st0 =
           sweep p (t0 + int (Suc n) * 60000) (run_sweeper p t0 n st0)"
proof -
  have c: "cache (sweep p now st) =
           filter (\<lambda>(k, item). \<not> now - timestamp item > cacheTime (options p)) (cache st)"
    using assms by (rule sweep_cache)
  have n: "map_of (cache (sweep p now st)) (cacheKey p) = None"
    if "map_of (cache st) (cacheKey p) = Some item" and "now - timestamp item > cacheTime (options p)"
    for item
    unfolding c using assms that(1) by (rule map_of_filter_distinct_None) (use that(2) in simp)
  have f: "trace (snd (fetchData p r t_check t_store False (sweep p now st, w))) =
              trace w @ [RemoteRead (build_query (collectionName p) (filters p))]"
    if "map_of (cache (sweep p now st)) (cacheKey p) = None"
    using that by (simp add: fetchData_def cache_hit_def Let_def trace_emit split: sum.splits)
  have r: "run_sweeper p t0 (Suc n) st0 =
           sweep p (t0 + int (Suc n) * 60000) (run_sweeper p t0 n st0)"
    using run_sweeper_Suc[of p t0 n st0] by (simp add: cleanup_interval_def)
  show ?thesis using c n f r sweep_others[of p now st] by simp
qed

theorem sweep_evicts_expired_witness:
  "distinct (map fst (cache loaded_state)) \<and>
   map_of (cache loaded_state) (cacheKey employees_props) = Some employees_entry \<and>
   300001 - timestamp employees_entry > cacheTime (options employees_props) \<and>
   cache (sweep employees_props 300001 loaded_state) = [] \<and>
   trace (snd (fetchData employees_props store_up 300002 300003 False
                 (sweep employees_props 300001 loaded_state, initial_world))) =
     [RemoteRead \<lparr>q_collection = ''employees'', q_wheres = [(''companyId'', JStr ''A'')]\<rparr>]"
proof -
  have d: "distinct (map fst (cache loaded_state))"
    by (simp add: loaded_state_def)
  have m: "map_of (cache loaded_state) (cacheKey employees_props) = Some employees_entry"
    by (simp add: loaded_state_def)
  have e: "300001 - timestamp employees_entry > cacheTime (options employees_props)"
    by (simp add: employees_entry_def employees_props_def default_options_def)
  have q: "build_query (collectionName employees_props) (filters employees_props) =
           \<lparr>q_collection = ''employees'', q_wheres = [(''companyId'', JStr ''A'')]\<rparr>"
    by (simp add: build_query_def employees_props_def collection_def query_where_def)
  have l: "filter (\<lambda>(k, item). \<not> 300001 - timestamp item > cacheTime (options employees_props))
             (cache loaded_state) = []"
    using e by (simp add: loaded_state_def)
  show ?thesis
    using sweep_evicts_expired[where st = loaded_state and p = employees_props and now = 300001
        and r = store_up and t_check = 300002 and t_store = 300003 and w = initial_world]
      d m e q l
    by (simp add: initial_world_def)
qed

section \<open>The listener registry\<close>

lemma update_fresh: "k \<notin> fst ` set al \<Longrightarrow> AList.update k v al = al @ [(k, v)]"
  by (induction al) auto

lemma registry_ok_initial: "registry_ok initial_world"
  by (simp add: registry_ok_def initial_world_def)

lemma listener_effect_new:
  assumes "backgroundUpdate (options p)" and "map_of (activeListeners w) (listenerKey p) = None"
  shows "listener_effect p w =
     (w\<lparr>live := live w @ [\<lparr>sub_id = next_handle w, sub_key = listenerKey p,
                           sub_query = build_query (collectionName p) (filters p)\<rparr>],
        next_handle := Suc (next_handle w),
        trace := trace w @ [Subscribed (next_handle w) (build_query (collectionName p) (filters p))],
        activeListeners := activeListeners w @ [(listenerKey p, next_handle w)]\<rparr>, True)"
proof -
  have "listenerKey p \<notin> fst ` set (activeListeners w)"
    using assms(2) by (simp add: map_of_eq_None_iff)
  then show ?thesis
    using assms by (simp add: listener_effect_def Let_def emit_def update_fresh)
qed

lemma listener_effect_old:
  assumes "\<not> backgroundUpdate (options p) \<or> map_of (activeListeners w) (listenerKey p) \<noteq> None"
  shows "listener_effect p w = (w, False)"
  using assms by (auto simp: listener_effect_def)

lemma registry_ok_effect:
  assumes "registry_ok w"
  shows "registry_ok (fst (listener_effect p w))"
proof (cases "backgroundUpdate (options p) \<and> map_of (activeListeners w) (listenerKey p) = None")
  case False
  then show ?thesis using assms by (simp add: listener_effect_old)
next
  case True
  then have k: "listenerKey p \<notin> fst ` set (activeListeners w)"
    by (simp add: map_of_eq_None_iff)
  have lt: "\<And>s. s \<in> set (live w) \<Longrightarrow> sub_id s < next_handle w"
    using assms by (simp add: registry_ok_def list_all_iff)
  have h: "next_handle w \<notin> sub_id ` set (live w)"
  proof
    assume "next_handle w \<in> sub_id ` set (live w)"
    then obtain s where "s \<in> set (live w)" "sub_id s = next_handle w" by auto
    then show False using lt[of s] by simp
  qed
  have corr: "set (map (\<lambda>s. (sub_key s, sub_id s)) (live w)) = set (activeListeners w)"
    and dk: "distinct (map fst (activeListeners w))"
    and di: "distinct (map sub_id (live w))"
    using assms by (simp_all add: registry_ok_def)
  let ?w' = "fst (listener_effect p w)"
  have al: "activeListeners ?w' = activeListeners w @ [(listenerKey p, next_handle w)]"
    and lv: "live ?w' = live w @ [\<lparr>sub_id = next_handle w, sub_key = listenerKey p,
                           sub_query = build_query (collectionName p) (filters p)\<rparr>]"
    and nh: "next_handle ?w' = Suc (next_handle w)"
    using True by (simp_all add: listener_effect_new)
  have 1: "distinct (map fst (activeListeners ?w'))"
    using dk k by (simp add: al)
  have 2: "distinct (map sub_id (live ?w'))"
    using di h by (simp add: lv)
  have 3: "set (map (\<lambda>s. (sub_key s, sub_id s)) (live ?w')) = set (activeListeners ?w')"
    using corr by (simp add: al lv)
  have 4: "list_all (\<lambda>s. sub_id s < next_handle ?w') (live ?w')"
    using lt by (simp add: lv nh list_all_iff less_Suc_eq)
  show ?thesis
    unfolding registry_ok_def using 1 2 3 4 by simp
qed

lemma live_registered:
  assumes "registry_ok w" and "s \<in> set (live w)"
  shows "(sub_key s, sub_id s) \<in> set (activeListeners w)"
proof -
  have "(\<lambda>s. (sub_key s, sub_id s)) s \<in> (\<lambda>s. (sub_key s, sub_id s)) ` set (live w)"
    using assms(2) by (rule imageI)
  then show ?thesis using assms(1) by (simp add: registry_ok_def)
qed

lemma registered_live:
  assumes "registry_ok w" and "(k, h) \<in> set (activeListeners w)"
  obtains s where "s \<in> set (live w)" and "sub_key s = k" and "sub_id s = h"
proof -
  have "(k, h) \<in> (\<lambda>s. (sub_key s, sub_id s)) ` set (live w)"
    using assms by (simp add: registry_ok_def)
  then obtain s where "s \<in> set (live w)" and "(k, h) = (sub_key s, sub_id s)"
    by (rule imageE)
  then show thesis using that by simp
qed

lemma remove_listener_absent:
  assumes "registry_ok w" and "map_of (activeListeners w) k = None"
  shows "remove_listener k w = w"
    and "filter (\<lambda>e. fst e \<noteq> k) (activeListeners w) = activeListeners w"
    and "filter (\<lambda>s. sub_key s \<noteq> k) (live w) = live w"
proof -
  show "remove_listener k w = w" using assms(2) by (simp add: remove_listener_def)
  have k: "k \<notin> fst ` set (activeListeners w)"
    using assms(2) by (simp add: map_of_eq_None_iff)
  then show "filter (\<lambda>e. fst e \<noteq> k) (activeListeners w) = activeListeners w"
    by (auto simp: filter_id_conv)
  have "set (map (\<lambda>s. (sub_key s, sub_id s)) (live w)) = set (activeListeners w)"
    using assms(1) by (simp add: registry_ok_def)
  then have "\<And>s. s \<in> set (live w) \<Longrightarrow> (sub_key s, sub_id s) \<in> set (activeListeners w)"
    by auto
  then have "\<And>s. s \<in> set (live w) \<Longrightarrow> sub_key s \<noteq> k"
    using k by (metis fst_conv image_eqI)
  then show "filter (\<lambda>s. sub_key s \<noteq> k) (live w) = live w"
    by (auto simp: filter_id_conv)
qed

lemma remove_listener_present:
  assumes "registry_ok w" and "map_of (activeListeners w) k = Some h"
  shows "activeListeners (remove_listener k w) = filter (\<lambda>e. fst e \<noteq> k) (activeListeners w)"
    and "live (remove_listener k w) = filter (\<lambda>s. sub_key s \<noteq> k) (live w)"
    and "next_handle (remove_listener k w) = next_handle w"
    and "trace (remove_listener k w) = trace w @ [Unsubscribed h]"
proof -
  have r: "remove_listener k w =
           w\<lparr>live := filter (\<lambda>s. sub_id s \<noteq> h) (live w),
             trace := trace w @ [Unsubscribed h],
             activeListeners := AList.delete k (activeListeners w)\<rparr>"
    using assms(2) by (simp add: remove_listener_def unsubscribe_def emit_def Let_def)
  have "AList.delete k (activeListeners w) = filter (\<lambda>e. fst e \<noteq> k) (activeListeners w)"
    unfolding AList.delete_eq by (rule filter_cong) auto
  then show "activeListeners (remove_listener k w) = filter (\<lambda>e. fst e \<noteq> k) (activeListeners w)"
    by (simp add: r)
  have dk: "distinct (map fst (activeListeners w))"
    and di: "distinct (map sub_id (live w))"
    using assms(1) by (simp_all add: registry_ok_def)
  have kh: "(k, h) \<in> set (activeListeners w)" using assms(2) by (rule map_of_SomeD)
  obtain s0 where s0: "s0 \<in> set (live w)" "sub_key s0 = k" "sub_id s0 = h"
    using registered_live[OF assms(1) kh] by blast
  have eq: "(sub_id s \<noteq> h) = (sub_key s \<noteq> k)" if sin: "s \<in> set (live w)" for s
  proof
    assume a: "sub_id s \<noteq> h"
    have "(sub_key s, sub_id s) \<in> set (activeListeners w)"
      using assms(1) sin by (rule live_registered)
    then show "sub_key s \<noteq> k" using kh dk a eq_key_imp_eq_value by fastforce
  next
    assume a: "sub_key s \<noteq> k"
    show "sub_id s \<noteq> h"
    proof
      assume "sub_id s = h"
      then have "sub_id s = sub_id s0" using s0 by simp
      then have "s = s0" using di sin s0(1) by (simp add: distinct_map inj_on_def)
      then show False using a s0 by simp
    qed
  qed
  have "filter (\<lambda>s. sub_id s \<noteq> h) (live w) = filter (\<lambda>s. sub_key s \<noteq> k) (live w)"
    by (rule filter_cong) (simp_all add: eq)
  then show "live (remove_listener k w) = filter (\<lambda>s. sub_key s \<noteq> k) (live w)"
    by (simp add: r)
  show "next_handle (remove_listener k w) = next_handle w"
    by (simp add: r)
  show "trace (remove_listener k w) = trace w @ [Unsubscribed h]"
    by (simp add: r)
qed

lemma remove_listener_shape:
  assumes "registry_ok w"
  shows "activeListeners (remove_listener k w) = filter (\<lambda>e. fst e \<noteq> k) (activeListeners w) \<and>
         live (remove_listener k w) = filter (\<lambda>s. sub_key s \<noteq> k) (live w) \<and>
         next_handle (remove_listener k w) = next_handle w"
proof (cases "map_of (activeListeners w) k")
  case None
  show ?thesis using remove_listener_absent[OF assms None] by simp
next
  case (Some h)
  show ?thesis using remove_listener_present[OF assms Some] by simp
qed

lemma registry_ok_remove:
  assumes "registry_ok w"
  shows "registry_ok (remove_listener k w)"
proof -
  note sh = remove_listener_shape[OF assms, of k]
  have dk: "distinct (map fst (activeListeners w))"
    and di: "distinct (map sub_id (live w))"
    and lt: "list_all (\<lambda>s. sub_id s < next_handle w) (live w)"
    using assms by (simp_all add: registry_ok_def)
  have "(\<lambda>s. (sub_key s, sub_id s)) ` {s \<in> set (live w). sub_key s \<noteq> k}
        = {e \<in> set (activeListeners w). fst e \<noteq> k}" (is "?L = ?R")
  proof
    show "?L \<subseteq> ?R" using live_registered[OF assms] by auto
    show "?R \<subseteq> ?L"
    proof
      fix e assume e: "e \<in> ?R"
      obtain k' h where kh: "e = (k', h)" by (cases e)
      then have "(k', h) \<in> set (activeListeners w)" and ne: "k' \<noteq> k" using e by auto
      then obtain s where "s \<in> set (live w)" "sub_key s = k'" "sub_id s = h"
        using registered_live[OF assms] by blast
      then show "e \<in> ?L" using kh ne by (auto simp: image_iff)
    qed
  qed
  then have 3: "set (map (\<lambda>s. (sub_key s, sub_id s)) (live (remove_listener k w)))
        = set (activeListeners (remove_listener k w))"
    by (simp add: sh)
  have 1: "distinct (map fst (activeListeners (remove_listener k w)))"
    using dk by (simp add: sh distinct_map_filter)
  have 2: "distinct (map sub_id (live (remove_listener k w)))"
    using di by (simp add: sh distinct_map_filter)
  have 4: "list_all (\<lambda>s. sub_id s < next_handle (remove_listener k w)) (live (remove_listener k w))"
    using lt by (simp add: sh list_all_iff)
  show ?thesis unfolding registry_ok_def using 1 2 3 4 by simp
qed

lemma fold_remove_listener:
  assumes "registry_ok w"
  shows "registry_ok (fold remove_listener ks w) \<and>
         activeListeners (fold remove_listener ks w) = filter (\<lambda>e. fst e \<notin> set ks) (activeListeners w) \<and>
         live (fold remove_listener ks w) = filter (\<lambda>s. sub_key s \<notin> set ks) (live w)"
  using assms
proof (induction ks arbitrary: w)
  case Nil
  then show ?case by simp
next
  case (Cons k ks)
  have ok: "registry_ok (remove_listener k w)" using Cons.prems by (rule registry_ok_remove)
  note sh = remove_listener_shape[OF Cons.prems, of k]
  have a: "filter (\<lambda>e. fst e \<notin> set ks) (filter (\<lambda>e. fst e \<noteq> k) (activeListeners w))
           = filter (\<lambda>e. fst e \<notin> set (k # ks)) (activeListeners w)"
    by (simp add: conj_commute)
  have l: "filter (\<lambda>s. sub_key s \<notin> set ks) (filter (\<lambda>s. sub_key s \<noteq> k) (live w))
           = filter (\<lambda>s. sub_key s \<notin> set (k # ks)) (live w)"
    by (simp add: conj_commute)
  show ?case
    using Cons.IH[OF ok] a l by (simp add: sh)
qed

lemma unmount_cleanup_shape:
  assumes "registry_ok w"
  shows "registry_ok (unmount_cleanup p w) \<and>
         activeListeners (unmount_cleanup p w) =
           filter (\<lambda>(k, h). \<not> prefix (collectionName p @ '':'') k) (activeListeners w) \<and>
         live (unmount_cleanup p w) =
           filter (\<lambda>s. \<not> prefix (collectionName p @ '':'') (sub_key s)) (live w)"
proof -
  let ?ks = "filter (\<lambda>key. prefix (collectionName p @ '':'') key) (map fst (activeListeners w))"
  have u: "unmount_cleanup p w = fold remove_listener ?ks w"
    by (simp add: unmount_cleanup_def)
  note f = fold_remove_listener[OF assms, of ?ks]
  have a: "filter (\<lambda>e. fst e \<notin> set ?ks) (activeListeners w) =
           filter (\<lambda>(k, h). \<not> prefix (collectionName p @ '':'') k) (activeListeners w)"
    by (rule filter_cong) (auto simp: image_iff)
  have "sub_key s \<in> fst ` set (activeListeners w)" if sin: "s \<in> set (live w)" for s
    using live_registered[OF assms sin] by (metis fst_conv image_eqI)
  then have l: "filter (\<lambda>s. sub_key s \<notin> set ?ks) (live w) =
           filter (\<lambda>s. \<not> prefix (collectionName p @ '':'') (sub_key s)) (live w)"
    by (intro filter_cong) auto
  have f1: "registry_ok (fold remove_listener ?ks w)"
    using f by (rule conjunct1)
  have f2: "activeListeners (fold remove_listener ?ks w) =
            filter (\<lambda>e. fst e \<notin> set ?ks) (activeListeners w)"
    using f by (rule conjunct1[OF conjunct2])
  have f3: "live (fold remove_listener ?ks w) = filter (\<lambda>s. sub_key s \<notin> set ?ks) (live w)"
    using f by (rule conjunct2[OF conjunct2])
  show ?thesis
    unfolding u using f1 trans[OF f2 a] trans[OF f3 l] by (intro conjI)
qed

lemma reachable_registry_ok: "reachable w \<Longrightarrow> registry_ok w"
proof (induction rule: reachable.induct)
  case start
  show ?case by (rule registry_ok_initial)
next
  case (effect w p)
  then show ?case by (simp add: registry_ok_effect)
next
  case (cleanup w p)
  then show ?case by (simp add: listener_cleanup_def registry_ok_remove)
next
  case (unmounted w p)
  then show ?case by (simp add: unmount_cleanup_shape)
qed

lemma distinct_same_length:
  assumes "distinct xs" and "\<And>x. x \<in> set xs \<Longrightarrow> x = a"
  shows "length xs \<le> 1"
proof -
  have "set xs \<subseteq> {a}" using assms(2) by auto
  then have "card (set xs) \<le> card {a}" by (intro card_mono) auto
  then show ?thesis using assms(1) by (simp add: distinct_card)
qed

lemma registry_ok_at_most_one:
  assumes "registry_ok w"
  shows "length (subs_for key w) \<le> 1"
proof (cases "subs_for key w")
  case Nil
  then show ?thesis by simp
next
  case (Cons s0 rest)
  have dk: "distinct (map fst (activeListeners w))"
    and di: "distinct (map sub_id (live w))"
    using assms by (simp_all add: registry_ok_def)
  have d: "distinct (map sub_id (subs_for key w))"
    using di by (simp add: subs_for_def distinct_map_filter)
  have "s0 \<in> set (subs_for key w)" using Cons by simp
  then have s0: "s0 \<in> set (live w)" "sub_key s0 = key"
    by (simp_all add: subs_for_def)
  have r0: "(key, sub_id s0) \<in> set (activeListeners w)"
    using live_registered[OF assms s0(1)] s0(2) by simp
  have "x = sub_id s0" if xin: "x \<in> set (map sub_id (subs_for key w))" for x
  proof -
    obtain s where s: "s \<in> set (live w)" "sub_key s = key" "x = sub_id s"
      using xin by (auto simp: subs_for_def)
    have "(key, sub_id s) \<in> set (activeListeners w)"
      using live_registered[OF assms s(1)] s(2) by simp
    then show ?thesis using dk s(3) r0 eq_key_imp_eq_value by fastforce
  qed
  with d have "length (map sub_id (subs_for key w)) \<le> 1"
    by (rule distinct_same_length)
  then show ?thesis by simp
qed

lemma listenerKey_prefix: "prefix (collectionName p @ '':'') (listenerKey p)"
  by (simp add: listenerKey_def prefix_def)

text \<open>
  C4. In every world the hook instances can reach, at most one subscription stands at
  the store for any listener key. Mounting a consumer whose key is already registered
  changes nothing. When two consumers with the same listener key mount one after the
  other, background updates being on and the key not yet registered, the two mounts
  open exactly one subscription: the second is a no-op that hands React no cleanup,
  and one subscription stands for the key afterwards.
\<close>

theorem one_subscription_per_key:
  assumes "reachable w"
  shows "length (subs_for key w) \<le> 1 \<and>
         (map_of (activeListeners w) (listenerKey p) \<noteq> None \<longrightarrow> mount p w = w) \<and>
         (backgroundUpdate (options p) \<and> listenerKey p' = listenerKey p \<and>
          map_of (activeListeners w) (listenerKey p) = None \<longrightarrow>
            subscriptions_created (trace (mount p' (mount p w))) =
              subscriptions_created (trace w) + 1 \<and>
            mount p' (mount p w) = mount p w \<and>
            \<not> snd (listener_effect p' (mount p w)) \<and>
            length (subs_for (listenerKey p) (mount p' (mount p w))) = 1)"
proof -
  have ok: "registry_ok w" using assms by (rule reachable_registry_ok)
  have a: "length (subs_for key w) \<le> 1" using ok by (rule registry_ok_at_most_one)
  have b: "mount p w = w" if "map_of (activeListeners w) (listenerKey p) \<noteq> None"
    using that by (simp add: mount_def listener_effect_old)
  have c: "subscriptions_created (trace (mount p' (mount p w))) =
              subscriptions_created (trace w) + 1 \<and>
            mount p' (mount p w) = mount p w \<and>
            \<not> snd (listener_effect p' (mount p w)) \<and>
            length (subs_for (listenerKey p) (mount p' (mount p w))) = 1"
    if bg: "backgroundUpdate (options p)" and same: "listenerKey p' = listenerKey p"
      and none: "map_of (activeListeners w) (listenerKey p) = None"
  proof -
    note new = listener_effect_new[OF bg none]
    have reg: "map_of (activeListeners (mount p w)) (listenerKey p') \<noteq> None"
      by (simp add: mount_def new same)
    then have second: "listener_effect p' (mount p w) = (mount p w, False)"
      by (simp add: listener_effect_old)
    have created: "subscriptions_created (trace (mount p w)) = subscriptions_created (trace w) + 1"
      by (simp add: mount_def new subscriptions_created_def)
    have "filter (\<lambda>s. sub_key s = listenerKey p) (live w) = []"
    proof (rule ccontr)
      assume "filter (\<lambda>s. sub_key s = listenerKey p) (live w) \<noteq> []"
      then obtain s where s: "s \<in> set (live w)" "sub_key s = listenerKey p"
        by (auto simp: filter_empty_conv)
      have "(listenerKey p, sub_id s) \<in> set (activeListeners w)"
        using live_registered[OF ok s(1)] s(2) by simp
      then show False using none by (auto simp: map_of_eq_None_iff image_iff)
    qed
    then have one: "length (subs_for (listenerKey p) (mount p w)) = 1"
      by (simp add: subs_for_def mount_def new)
    show ?thesis using second created one by (simp add: mount_def)
  qed
  show ?thesis using a b c by blast
qed

theorem one_subscription_per_key_witness:
  "subscriptions_created (trace (mount employees_props (mount employees_props initial_world))) = 1 \<and>
   mount employees_props (mount employees_props initial_world) = mount employees_props initial_world \<and>
   length (subs_for (listenerKey employees_props)
             (mount employees_props (mount employees_props initial_world))) = 1"
proof -
  have bg: "backgroundUpdate (options employees_props)"
    by (simp add: employees_props_def default_options_def)
  have none: "map_of (activeListeners initial_world) (listenerKey employees_props) = None"
    by (simp add: initial_world_def)
  have z: "subscriptions_created (trace initial_world) = 0"
    by (simp add: initial_world_def subscriptions_created_def)
  show ?thesis
    using one_subscription_per_key[OF reachable.start,
        where p = employees_props and p' = employees_props and key = "[]"] bg none z
    by auto
qed

text \<open>
  C9, as the code has it. When a consumer unmounts, its unmount cleanup removes every
  registry entry whose key starts with the consumer's collection name followed by a
  colon, and ends the subscription of each; entries and subscriptions with other keys
  stay. Nothing counts the consumers of a key: afterwards no subscription stands for
  the listener key of any consumer of the same collection, whether or not the
  unmounting consumer was the one that registered it.
\<close>

theorem unmount_tears_down_collection:
  assumes "reachable w"
  shows "activeListeners (unmount_cleanup p w) =
           filter (\<lambda>(k, h). \<not> prefix (collectionName p @ '':'') k) (activeListeners w) \<and>
         live (unmount_cleanup p w) =
           filter (\<lambda>s. \<not> prefix (collectionName p @ '':'') (sub_key s)) (live w) \<and>
         (collectionName p' = collectionName p \<longrightarrow>
            subs_for (listenerKey p') (unmount p registered w) = [])"
proof -
  have ok: "registry_ok w" using assms by (rule reachable_registry_ok)
  let ?w = "if registered then listener_cleanup p w else w"
  have "reachable ?w" using assms by (simp add: reachable.cleanup)
  then have ok': "registry_ok ?w" by (rule reachable_registry_ok)
  have "live (unmount_cleanup p ?w) =
          filter (\<lambda>s. \<not> prefix (collectionName p @ '':'') (sub_key s)) (live ?w)"
    using unmount_cleanup_shape[OF ok', of p] by blast
  then have "subs_for (listenerKey p') (unmount p registered w) = []"
    if "collectionName p' = collectionName p"
    using listenerKey_prefix[of p'] that
    by (auto simp: subs_for_def unmount_def filter_empty_conv)
  then show ?thesis using unmount_cleanup_shape[OF ok, of p] by blast
qed

theorem unmount_tears_down_collection_witness:
  "live (mount employees_props initial_world) \<noteq> [] \<and>
   live (unmount_cleanup employees_props (mount employees_props initial_world)) = [] \<and>
   subs_for (listenerKey employees_props)
     (unmount employees_props False (mount employees_props initial_world)) = []"
proof -
  have r: "reachable (mount employees_props initial_world)"
    unfolding mount_def by (rule reachable.effect[OF reachable.start])
  have bg: "backgroundUpdate (options employees_props)"
    by (simp add: employees_props_def default_options_def)
  have none: "map_of (activeListeners initial_world) (listenerKey employees_props) = None"
    by (simp add: initial_world_def)
  have l: "live (mount employees_props initial_world) =
           [\<lparr>sub_id = 0, sub_key = listenerKey employees_props,
             sub_query = build_query (collectionName employees_props) (filters employees_props)\<rparr>]"
    unfolding mount_def listener_effect_new[OF bg none] by (simp add: initial_world_def)
  show ?thesis
    using unmount_tears_down_collection[OF r, where p = employees_props
        and p' = employees_props and registered = False]
      listenerKey_prefix[of employees_props]
    by (simp add: l)
qed

text \<open>
  C9, as stated, fails. Consumer Y registers the subscription for the employees of
  company A, consumer X with the same arguments mounts second and registers nothing;
  when X unmounts, the subscription Y relies on is gone.
\<close>

theorem shared_subscription_counterexample:
  "subs_for (listenerKey employees_props)
     (mount employees_props (mount employees_props initial_world)) \<noteq> [] \<and>
   subs_for (listenerKey employees_props)
     (unmount employees_props False
        (mount employees_props (mount employees_props initial_world))) = []"
proof -
  have bg: "backgroundUpdate (options employees_props)"
    by (simp add: employees_props_def default_options_def)
  have none: "map_of (activeListeners initial_world) (listenerKey employees_props) = None"
    by (simp add: initial_world_def)
  have m1: "mount employees_props initial_world =
        \<lparr>activeListeners = [(listenerKey employees_props, 0)],
         live = [\<lparr>sub_id = 0, sub_key = listenerKey employees_props,
             sub_query = build_query (collectionName employees_props) (filters employees_props)\<rparr>],
         next_handle = 1,
         trace = [Subscribed 0 (build_query (collectionName employees_props) (filters employees_props))]\<rparr>"
    unfolding mount_def listener_effect_new[OF bg none] by (simp add: initial_world_def)
  have m2: "mount employees_props (mount employees_props initial_world) =
            mount employees_props initial_world"
    unfolding m1 by (simp add: mount_def listener_effect_def)
  show ?thesis
    unfolding m2 unfolding m1
    using listenerKey_prefix[of employees_props]
    by (simp add: subs_for_def unmount_def unmount_cleanup_def remove_listener_def
        unsubscribe_def emit_def)
qed

section \<open>The cache key\<close>

lemma hex_digit_code:
  "a < 16 \<Longrightarrow> (of_char (hex_digit a) :: nat) = (if a < 10 then 48 + a else 87 + a)"
  by (simp add: hex_digit_def)

lemma hex_digit_inj:
  assumes "a < 16" and "b < 16" and "hex_digit a = hex_digit b"
  shows "a = b"
proof -
  have "(of_char (hex_digit a) :: nat) = of_char (hex_digit b)" using assms(3) by simp
  then show ?thesis using assms(1,2) by (simp add: hex_digit_code split: if_splits)
qed

lemma hex_pair_inj:
  assumes "n < 32" and "m < 32"
    and "hex_digit (n div 16) = hex_digit (m div 16)"
    and "hex_digit (n mod 16) = hex_digit (m mod 16)"
  shows "n = m"
proof -
  have "n div 16 = m div 16"
    using assms(1,2) by (intro hex_digit_inj[OF _ _ assms(3)]) auto
  moreover have "n mod 16 = m mod 16"
    by (intro hex_digit_inj[OF _ _ assms(4)]) auto
  ultimately show ?thesis by (metis div_mult_mod_eq)
qed

lemma quote_char_plain: "\<not> escaped c \<Longrightarrow> quote_char c = [c]"
  by (auto simp: quote_char_def escaped_def)

lemma quote_char_escaped:
  "escaped c \<Longrightarrow> \<exists>t. quote_char c = CHR 0x5C # t"
  by (auto simp: quote_char_def escaped_def)

lemma quote_char_hd: "quote_char c \<noteq> [] \<and> hd (quote_char c) \<noteq> CHR 0x22"
  by (auto simp: quote_char_def)

lemma quote_char_short:
  "c \<in> {CHR 0x08, CHR 0x09, CHR 0x0A, CHR 0x0C, CHR 0x0D, CHR 0x22, CHR 0x5C} \<Longrightarrow>
   \<exists>x. quote_char c = [CHR 0x5C, x] \<and> x \<noteq> CHR ''u''"
  by (auto simp: quote_char_def)

lemma quote_char_long:
  "c \<notin> {CHR 0x08, CHR 0x09, CHR 0x0A, CHR 0x0C, CHR 0x0D, CHR 0x22, CHR 0x5C} \<Longrightarrow>
   (of_char c :: nat) < 32 \<Longrightarrow>
   quote_char c = [CHR 0x5C, CHR ''u'', CHR ''0'', CHR ''0'',
              hex_digit ((of_char c :: nat) div 16), hex_digit ((of_char c :: nat) mod 16)]"
  by (auto simp: quote_char_def)

lemma quote_char_short_inj:
  assumes "c \<in> {CHR 0x08, CHR 0x09, CHR 0x0A, CHR 0x0C, CHR 0x0D, CHR 0x22, CHR 0x5C}"
    and "d \<in> {CHR 0x08, CHR 0x09, CHR 0x0A, CHR 0x0C, CHR 0x0D, CHR 0x22, CHR 0x5C}"
    and "hd (tl (quote_char c)) = hd (tl (quote_char d))"
  shows "c = d"
  using assms by (auto simp: quote_char_def)


lemma quote_char_inj:
  assumes "quote_char c @ X = quote_char d @ Y"
  shows "c = d \<and> X = Y"
proof -
  let ?S = "{CHR 0x08, CHR 0x09, CHR 0x0A, CHR 0x0C, CHR 0x0D, CHR 0x22, CHR 0x5C}"
  consider (pp) "\<not> escaped c" "\<not> escaped d"
    | (pe) "\<not> escaped c" "escaped d"
    | (ep) "escaped c" "\<not> escaped d"
    | (ss) "c \<in> ?S" "d \<in> ?S"
    | (sl) "c \<in> ?S" "d \<notin> ?S" "(of_char d :: nat) < 32"
    | (ls) "c \<notin> ?S" "(of_char c :: nat) < 32" "d \<in> ?S"
    | (ll) "c \<notin> ?S" "(of_char c :: nat) < 32" "d \<notin> ?S" "(of_char d :: nat) < 32"
  proof -
    have ec: "c \<in> ?S \<or> (c \<notin> ?S \<and> (of_char c :: nat) < 32)" if "escaped c"
      using that unfolding escaped_def by (cases "c \<in> ?S") simp_all
    have ed: "d \<in> ?S \<or> (d \<notin> ?S \<and> (of_char d :: nat) < 32)" if "escaped d"
      using that unfolding escaped_def by (cases "d \<in> ?S") simp_all
    assume a: "\<lbrakk>\<not> escaped c; \<not> escaped d\<rbrakk> \<Longrightarrow> thesis"
      "\<lbrakk>\<not> escaped c; escaped d\<rbrakk> \<Longrightarrow> thesis"
      "\<lbrakk>escaped c; \<not> escaped d\<rbrakk> \<Longrightarrow> thesis"
      "\<lbrakk>c \<in> ?S; d \<in> ?S\<rbrakk> \<Longrightarrow> thesis"
      "\<lbrakk>c \<in> ?S; d \<notin> ?S; (of_char d :: nat) < 32\<rbrakk> \<Longrightarrow> thesis"
      "\<lbrakk>c \<notin> ?S; (of_char c :: nat) < 32; d \<in> ?S\<rbrakk> \<Longrightarrow> thesis"
      "\<lbrakk>c \<notin> ?S; (of_char c :: nat) < 32; d \<notin> ?S; (of_char d :: nat) < 32\<rbrakk> \<Longrightarrow> thesis"
    show thesis
    proof (cases "escaped c")
      case False
      then show ?thesis using a(1,2) by (cases "escaped d") simp_all
    next
      case True
      show ?thesis
      proof (cases "escaped d")
        case False
        then show ?thesis using a(3) True by simp
      next
        case d: True
        from ec[OF True] ed[OF d] show ?thesis
          using a(4,5,6,7) by metis
      qed
    qed
  qed
  then show ?thesis
  proof cases
    case pp
    then show ?thesis using assms by (simp add: quote_char_plain)
  next
    case pe
    obtain t where "quote_char d = CHR 0x5C # t" using quote_char_escaped[OF pe(2)] by blast
    then have "c = CHR 0x5C" using assms pe(1) by (simp add: quote_char_plain)
    then show ?thesis using pe(1) by (simp add: escaped_def)
  next
    case ep
    obtain t where "quote_char c = CHR 0x5C # t" using quote_char_escaped[OF ep(1)] by blast
    then have "d = CHR 0x5C" using assms ep(2) by (simp add: quote_char_plain)
    then show ?thesis using ep(2) by (simp add: escaped_def)
  next
    case ss
    obtain x where x: "quote_char c = [CHR 0x5C, x]" using quote_char_short[OF ss(1)] by blast
    obtain y where y: "quote_char d = [CHR 0x5C, y]" using quote_char_short[OF ss(2)] by blast
    have xy: "x = y" and XY: "X = Y" using assms by (simp_all add: x y)
    have "hd (tl (quote_char c)) = hd (tl (quote_char d))" by (simp add: x y xy)
    then have "c = d" by (rule quote_char_short_inj[OF ss])
    then show ?thesis using XY by simp
  next
    case sl
    obtain x where x: "quote_char c = [CHR 0x5C, x]" "x \<noteq> CHR ''u''"
      using quote_char_short[OF sl(1)] by blast
    show ?thesis using assms x by (simp add: quote_char_long[OF sl(2,3)])
  next
    case ls
    obtain y where y: "quote_char d = [CHR 0x5C, y]" "y \<noteq> CHR ''u''"
      using quote_char_short[OF ls(3)] by blast
    show ?thesis using assms y by (auto simp add: quote_char_long[OF ls(1,2)])
  next
    case ll
    have e: "hex_digit ((of_char c :: nat) div 16) = hex_digit ((of_char d :: nat) div 16)"
         "hex_digit ((of_char c :: nat) mod 16) = hex_digit ((of_char d :: nat) mod 16)"
         "X = Y"
      using assms by (simp_all add: quote_char_long[OF ll(1,2)] quote_char_long[OF ll(3,4)])
    have "(of_char c :: nat) = of_char d"
      using ll(2,4) e(1,2) by (rule hex_pair_inj)
    then show ?thesis using e(3) by simp
  qed
qed

lemma quote_body_inj:
  "concat (map quote_char s) @ CHR 0x22 # r = concat (map quote_char t) @ CHR 0x22 # r' \<Longrightarrow>
   s = t \<and> r = r'"
proof (induction s arbitrary: t)
  case Nil
  show ?case
  proof (cases t)
    case Nil
    then show ?thesis using Nil.prems by simp
  next
    case (Cons d t')
    obtain x xs where "quote_char d = x # xs" "x \<noteq> CHR 0x22"
      using quote_char_hd[of d] by (cases "quote_char d") auto
    then show ?thesis using Nil.prems Cons by simp
  qed
next
  case (Cons c s')
  show ?case
  proof (cases t)
    case Nil
    obtain x xs where "quote_char c = x # xs" "x \<noteq> CHR 0x22"
      using quote_char_hd[of c] by (cases "quote_char c") auto
    then show ?thesis using Cons.prems Nil by simp
  next
    case (Cons d t')
    have "quote_char c @ (concat (map quote_char s') @ CHR 0x22 # r) =
          quote_char d @ (concat (map quote_char t') @ CHR 0x22 # r')"
      using Cons.prems Cons by simp
    then have "c = d" and "concat (map quote_char s') @ CHR 0x22 # r =
          concat (map quote_char t') @ CHR 0x22 # r'"
      using quote_char_inj by blast+
    then show ?thesis using Cons.IH[of t'] Cons by simp
  qed
qed

lemma quote_json_string_inj:
  assumes "quote_json_string s @ r = quote_json_string t @ r'"
  shows "s = t \<and> r = r'"
proof -
  have "concat (map quote_char s) @ CHR 0x22 # r = concat (map quote_char t) @ CHR 0x22 # r'"
    using assms by (simp add: quote_json_string_def)
  then show ?thesis by (rule quote_body_inj)
qed

lemma digit_run_unique:
  assumes "xs @ a # r = ys @ b # r'"
    and "list_all is_digit xs" and "list_all is_digit ys"
    and "\<not> is_digit a" and "\<not> is_digit b"
  shows "xs = ys \<and> a # r = b # r'"
proof -
  have "takeWhile is_digit (xs @ a # r) = xs"
    using assms(2,4) by (simp add: takeWhile_append2 list_all_iff)
  moreover have "takeWhile is_digit (ys @ b # r') = ys"
    using assms(3,5) by (simp add: takeWhile_append2 list_all_iff)
  ultimately have "xs = ys" using assms(1) by simp
  then show ?thesis using assms(1) by simp
qed

lemma comma_not_digit: "\<not> is_digit CHR '',''"
  by (simp add: is_digit_def)

lemma brace_not_digit: "\<not> is_digit CHR ''}''"
  by (simp add: is_digit_def)

lemma minus_not_digit: "\<not> is_digit CHR ''-''"
  by (simp add: is_digit_def)

lemma delimitedE:
  assumes "delimited r"
  obtains a t where "r = a # t" and "\<not> is_digit a" and "a \<noteq> CHR ''-''"
proof -
  from assms obtain t where "r = CHR '','' # t \<or> r = CHR ''}'' # t"
    unfolding delimited_def by blast
  then show thesis
  proof
    assume "r = CHR '','' # t"
    then show thesis using that[of "CHR '',''" t] comma_not_digit by simp
  next
    assume "r = CHR ''}'' # t"
    then show thesis using that[of "CHR ''}''" t] brace_not_digit by simp
  qed
qed

lemma digits_hd: "\<exists>c t. digits n = c # t \<and> is_digit c"
  using digits_all_digit[of n] by (cases "digits n") auto

lemma digits_delimited_inj:
  assumes "digits n @ r = digits m @ r'" and "delimited r" and "delimited r'"
  shows "n = m \<and> r = r'"
proof -
  obtain a t where r: "r = a # t" "\<not> is_digit a" using assms(2) by (rule delimitedE)
  obtain b u where r': "r' = b # u" "\<not> is_digit b" using assms(3) by (rule delimitedE)
  have la: "list_all is_digit (digits n)" and lb: "list_all is_digit (digits m)"
    using digits_all_digit by blast+
  have "digits n @ a # t = digits m @ b # u" using assms(1) r(1) r'(1) by simp
  then have e: "digits n = digits m \<and> a # t = b # u"
    using la lb r(2) r'(2) by (rule digit_run_unique)
  then have "n = m" using digits_inj by blast
  then show ?thesis using e r(1) r'(1) by simp
qed

lemma number_to_string_inj:
  assumes "number_to_string i @ r = number_to_string j @ r'"
    and "delimited r" and "delimited r'"
  shows "i = j \<and> r = r'"
proof -
  have mixed: False
    if "CHR ''-'' # digits n @ x = digits m @ y" for n m x y
  proof -
    obtain c t where "digits m = c # t" "is_digit c" using digits_hd by blast
    then have "c = CHR ''-''" using that by simp
    then show False using \<open>is_digit c\<close> minus_not_digit by simp
  qed
  show ?thesis
  proof (cases "sint i < 0")
    case i: True
    show ?thesis
    proof (cases "sint j < 0")
      case j: True
      have "digits (nat (- sint i)) @ r = digits (nat (- sint j)) @ r'"
        using assms(1) i j by (simp add: number_to_string_def)
      then have "nat (- sint i) = nat (- sint j) \<and> r = r'"
        using assms(2,3) by (rule digits_delimited_inj)
      then have "sint i = sint j" and "r = r'" using i j by auto
      then show ?thesis by (simp add: signed_word_eqI)
    next
      case j: False
      have "CHR ''-'' # digits (nat (- sint i)) @ r = digits (nat (sint j)) @ r'"
        using assms(1) i j by (simp add: number_to_string_def)
      then show ?thesis using mixed by blast
    qed
  next
    case i: False
    show ?thesis
    proof (cases "sint j < 0")
      case j: True
      have "CHR ''-'' # digits (nat (- sint j)) @ r' = digits (nat (sint i)) @ r"
        using assms(1) i j by (simp add: number_to_string_def)
      then show ?thesis using mixed by blast
    next
      case j: False
      have "digits (nat (sint i)) @ r = digits (nat (sint j)) @ r'"
        using assms(1) i j by (simp add: number_to_string_def)
      then have "nat (sint i) = nat (sint j) \<and> r = r'"
        using assms(2,3) by (rule digits_delimited_inj)
      then have "sint i = sint j" and "r = r'" using i j by auto
      then show ?thesis by (simp add: signed_word_eqI)
    qed
  qed
qed

lemma number_hd:
  "\<exists>c t. number_to_string i = c # t \<and> (c = CHR ''-'' \<or> is_digit c)"
proof (cases "sint i < 0")
  case True
  then show ?thesis by (simp add: number_to_string_def)
next
  case False
  obtain c t where "digits (nat (sint i)) = c # t" "is_digit c" using digits_hd by blast
  then show ?thesis using False by (simp add: number_to_string_def)
qed

lemma number_not_literal:
  assumes "number_to_string i @ r = c # x"
    and "c = CHR ''n'' \<or> c = CHR ''t'' \<or> c = CHR ''f'' \<or> c = CHR 0x22"
  shows False
proof -
  obtain d t where d: "number_to_string i = d # t" "d = CHR ''-'' \<or> is_digit d"
    using number_hd by blast
  have "d = c" using assms(1) d(1) by simp
  then show False using d(2) assms(2) by (auto simp: is_digit_def)
qed

text \<open>A value that is written as itself: \<open>null\<close>, a boolean, a number of the model, a
  string. These are the values the written entries hold.\<close>

lemma json_image_idem: "json_image v = Some v' \<Longrightarrow> json_image v' = Some v'"
  by (cases v) auto

lemma stringify_value_image:
  "stringify_value v =
     (case json_image v of None \<Rightarrow> None | Some v' \<Rightarrow> stringify_value v')"
  by (cases v) auto

lemma plain_cases:
  assumes "json_image v = Some v"
  obtains (null) "v = JNull" | (bool) b where "v = JBool b"
    | (num) n where "v = JNum n" | (str) s where "v = JStr s"
  using assms by (cases v) auto

lemma stringify_value_inj:
  assumes "json_image v = Some v" and "json_image v' = Some v'"
    and "stringify_value v = Some a" and "stringify_value v' = Some b"
    and "a @ r = b @ r'" and "delimited r" and "delimited r'"
  shows "v = v' \<and> r = r'"
  using assms(1)
proof (cases rule: plain_cases)
  case null
  then have a: "a = ''null''" using assms(3) by auto
  from assms(2) show ?thesis
  proof (cases rule: plain_cases)
    case (num j)
    then have "number_to_string j @ r' = CHR ''n'' # ''ull'' @ r"
      using assms(4,5) a by auto
    then show ?thesis using number_not_literal by blast
  qed (use assms(4,5) a null in \<open>auto simp: quote_json_string_def split: if_splits\<close>)
next
  case (bool x)
  then have a: "a = (if x then ''true'' else ''false'')" using assms(3) by auto
  from assms(2) show ?thesis
  proof (cases rule: plain_cases)
    case (num j)
    then have "number_to_string j @ r' =
               (if x then CHR ''t'' # ''rue'' @ r else CHR ''f'' # ''alse'' @ r)"
      using assms(4,5) a by auto
    then show ?thesis using number_not_literal[of j r'] by (auto split: if_splits)
  qed (use assms(4,5) a bool in \<open>auto simp: quote_json_string_def split: if_splits\<close>)
next
  case (num i)
  then have a: "a = number_to_string i" using assms(3) by auto
  from assms(2) show ?thesis
  proof (cases rule: plain_cases)
    case null
    then have "number_to_string i @ r = CHR ''n'' # ''ull'' @ r'"
      using assms(4,5) a by auto
    then show ?thesis using number_not_literal by blast
  next
    case (bool y)
    then have "number_to_string i @ r =
               (if y then CHR ''t'' # ''rue'' @ r' else CHR ''f'' # ''alse'' @ r')"
      using assms(4,5) a by auto
    then show ?thesis using number_not_literal[of i r] by (auto split: if_splits)
  next
    case (num j)
    then have "number_to_string i @ r = number_to_string j @ r'"
      using assms(4,5) a by auto
    then have "i = j \<and> r = r'" using assms(6,7) by (rule number_to_string_inj)
    then show ?thesis using num \<open>v = JNum i\<close> by simp
  next
    case (str t)
    then have "number_to_string i @ r = CHR 0x22 # concat (map quote_char t) @ CHR 0x22 # r'"
      using assms(4,5) a by (auto simp: quote_json_string_def)
    then show ?thesis using number_not_literal by blast
  qed
next
  case (str s)
  then have a: "a = quote_json_string s" using assms(3) by auto
  from assms(2) show ?thesis
  proof (cases rule: plain_cases)
    case (num j)
    then have "number_to_string j @ r' = CHR 0x22 # concat (map quote_char s) @ CHR 0x22 # r"
      using assms(4,5) a by (auto simp: quote_json_string_def)
    then show ?thesis using number_not_literal by blast
  next
    case (str t)
    then have "quote_json_string s @ r = quote_json_string t @ r'"
      using assms(4,5) a by auto
    then have "s = t \<and> r = r'" by (rule quote_json_string_inj)
    then show ?thesis using str \<open>v = JStr s\<close> by simp
  qed (use assms(4,5) a str in \<open>auto simp: quote_json_string_def split: if_splits\<close>)
qed

lemma stringify_entries_written:
  "stringify_entries (written_entries f) = stringify_entries f"
proof (induction f)
  case Nil
  show ?case by simp
next
  case (Cons e f)
  obtain k v where e: "e = (k, v)" by (cases e)
  show ?case using Cons.IH
    by (cases v) (simp_all add: e)
qed

lemma written_entries_plain:
  "list_all (\<lambda>(k, v). json_image v = Some v) (written_entries f)"
proof (induction f)
  case Nil
  show ?case by simp
next
  case (Cons e f)
  obtain k v where e: "e = (k, v)" by (cases e)
  show ?case using Cons.IH
    by (cases v) (simp_all add: e)
qed

lemma join_comma_Cons:
  "join_comma (e # rest) @ y = e @ (if rest = [] then y else CHR '','' # join_comma rest @ y)"
  by (cases rest) simp_all

lemma stringify_entries_Cons:
  assumes "json_image v = Some v"
  obtains a where "stringify_value v = Some a"
    and "stringify_entries ((k, v) # es) =
           (quote_json_string k @ CHR '':'' # a) # stringify_entries es"
  using assms by (cases v) auto

lemma stringify_entries_empty:
  assumes "list_all (\<lambda>(k, v). json_image v = Some v) es"
  shows "stringify_entries es = [] \<longleftrightarrow> es = []"
proof (cases es)
  case Nil
  then show ?thesis by simp
next
  case (Cons e es')
  obtain k v where e: "e = (k, v)" by (cases e)
  have "json_image v = Some v" using assms Cons e by simp
  then show ?thesis using Cons e by (cases v) auto
qed

lemma entries_inj:
  assumes "list_all (\<lambda>(k, v). json_image v = Some v) f1"
    and "list_all (\<lambda>(k, v). json_image v = Some v) f2"
    and "join_comma (stringify_entries f1) @ CHR ''}'' # x =
         join_comma (stringify_entries f2) @ CHR ''}'' # x'"
  shows "f1 = f2"
  using assms
proof (induction f1 arbitrary: f2)
  case Nil
  show ?case
  proof (cases f2)
    case Nil
    then show ?thesis by simp
  next
    case (Cons e es)
    obtain k v where e: "e = (k, v)" by (cases e)
    have "json_image v = Some v" using Nil.prems(2) Cons e by simp
    then obtain a where
      "stringify_entries ((k, v) # es) =
         (quote_json_string k @ CHR '':'' # a) # stringify_entries es"
      by (rule stringify_entries_Cons)
    then show ?thesis using Nil.prems(3) Cons e
      by (simp add: join_comma_Cons quote_json_string_def
               del: join_comma.simps(2,3) stringify_entries.simps(2))
  qed
next
  case (Cons e1 es1)
  obtain k1 v1 where e1: "e1 = (k1, v1)" by (cases e1)
  have d1: "json_image v1 = Some v1"
    and l1: "list_all (\<lambda>(k, v). json_image v = Some v) es1"
    using Cons.prems(1) e1 by simp_all
  obtain a1 where a1: "stringify_value v1 = Some a1"
    "stringify_entries ((k1, v1) # es1) =
       (quote_json_string k1 @ CHR '':'' # a1) # stringify_entries es1"
    using d1 by (rule stringify_entries_Cons)
  show ?case
  proof (cases f2)
    case Nil
    then show ?thesis using Cons.prems(3) e1 a1(2)
      by (simp add: join_comma_Cons quote_json_string_def
               del: join_comma.simps(2,3) stringify_entries.simps(2))
  next
    case (Cons e2 es2)
    obtain k2 v2 where e2: "e2 = (k2, v2)" by (cases e2)
    have d2: "json_image v2 = Some v2"
      and l2: "list_all (\<lambda>(k, v). json_image v = Some v) es2"
      using Cons.prems(2) Cons e2 by simp_all
    obtain a2 where a2: "stringify_value v2 = Some a2"
      "stringify_entries ((k2, v2) # es2) =
         (quote_json_string k2 @ CHR '':'' # a2) # stringify_entries es2"
      using d2 by (rule stringify_entries_Cons)
    let ?T1 = "if stringify_entries es1 = [] then CHR ''}'' # x
               else CHR '','' # join_comma (stringify_entries es1) @ CHR ''}'' # x"
    let ?T2 = "if stringify_entries es2 = [] then CHR ''}'' # x'
               else CHR '','' # join_comma (stringify_entries es2) @ CHR ''}'' # x'"
    have "quote_json_string k1 @ (CHR '':'' # a1 @ ?T1) =
          quote_json_string k2 @ (CHR '':'' # a2 @ ?T2)"
      using Cons.prems(3) Cons e1 e2 a1(2) a2(2)
      by (simp add: join_comma_Cons del: join_comma.simps(2,3) stringify_entries.simps(2))
    then have k: "k1 = k2" and r: "CHR '':'' # a1 @ ?T1 = CHR '':'' # a2 @ ?T2"
      using quote_json_string_inj by blast+
    have dl: "delimited ?T1" "delimited ?T2" by (simp_all add: delimited_def)
    have "a1 @ ?T1 = a2 @ ?T2" using r by simp
    with d1 d2 a1(1) a2(1) have v: "v1 = v2 \<and> ?T1 = ?T2"
      using dl by (rule stringify_value_inj)
    have "es1 = es2"
    proof (cases "stringify_entries es1 = []")
      case True
      then have "stringify_entries es2 = []" using v by (auto split: if_splits)
      then show ?thesis
        using True stringify_entries_empty[OF l1] stringify_entries_empty[OF l2] by simp
    next
      case False
      then have ne: "stringify_entries es2 \<noteq> []" using v by (auto split: if_splits)
      then have "join_comma (stringify_entries es1) @ CHR ''}'' # x =
                 join_comma (stringify_entries es2) @ CHR ''}'' # x'"
        using v False by simp
      with l1 l2 show ?thesis by (rule Cons.IH)
    qed
    then show ?thesis using k v e1 e2 Cons by simp
  qed
qed

lemma json_stringify_inj:
  "json_stringify f1 = json_stringify f2 \<longleftrightarrow> written_entries f1 = written_entries f2"
proof
  assume "json_stringify f1 = json_stringify f2"
  then have "join_comma (stringify_entries (written_entries f1)) @ CHR ''}'' # [] =
             join_comma (stringify_entries (written_entries f2)) @ CHR ''}'' # []"
    by (simp add: json_stringify_def stringify_entries_written)
  with written_entries_plain[of f1] written_entries_plain[of f2]
  show "written_entries f1 = written_entries f2"
    by (rule entries_inj)
next
  assume "written_entries f1 = written_entries f2"
  then have "stringify_entries f1 = stringify_entries f2"
    by (metis stringify_entries_written)
  then show "json_stringify f1 = json_stringify f2"
    by (simp add: json_stringify_def)
qed

text \<open>
  C1, as the code has it. The cache key is the collection name, a colon and
  \<open>JSON.stringify(filters)\<close>; it does not depend on the options. For one collection,
  two filter objects (neither with a \<open>toJSON\<close> method) get the same key exactly when
  \<open>JSON.stringify\<close> writes the same entries for them in the same order. Entries are
  written in enumeration order, so the order is part of the key. An entry whose value
  is \<open>undefined\<close> or a function is not written, so it counts as an absent key. \<open>NaN\<close>
  and the infinities are written as \<open>null\<close>, so they count as \<open>null\<close>. Apart from that,
  filter objects that differ in a key or in a value (\<open>null\<close>, a boolean, a string, an
  integer from \<open>-2^53\<close> to \<open>2^53 - 1\<close>) get different keys.
\<close>

theorem cacheKey_enumeration:
  assumes "\<not> has_toJSON f1" and "\<not> has_toJSON f2"
  shows "cacheKey \<lparr>collectionName = c, filters = f1, options = o1\<rparr> =
         cacheKey \<lparr>collectionName = c, filters = f2, options = o2\<rparr> \<longleftrightarrow>
         written_entries f1 = written_entries f2"
  using json_stringify_inj[of f1 f2] by (simp add: cacheKey_def)

theorem cacheKey_enumeration_witness:
  "\<not> has_toJSON f_sparse \<and>
   \<not> has_toJSON [(''companyId'', JStr ''A''), (''clientId'', JNull)] \<and>
   cacheKey \<lparr>collectionName = ''checks'', filters = f_sparse, options = default_options\<rparr> =
   cacheKey \<lparr>collectionName = ''checks'',
             filters = [(''companyId'', JStr ''A''), (''clientId'', JNull)],
             options = default_options\<lparr>backgroundUpdate := False\<rparr>\<rparr> \<and>
   cacheKey \<lparr>collectionName = ''checks'', filters = [(''companyId'', JStr ''A'')],
             options = default_options\<rparr> \<noteq>
   cacheKey \<lparr>collectionName = ''checks'', filters = [(''companyId'', JStr ''B'')],
             options = default_options\<rparr> \<and>
   cacheKey \<lparr>collectionName = ''checks'', filters = [(''amount'', JNum 120)],
             options = default_options\<rparr> \<noteq>
   cacheKey \<lparr>collectionName = ''checks'', filters = [(''amount'', JNum (- 120))],
             options = default_options\<rparr>"
proof -
  have h: "\<not> has_toJSON f_sparse"
    "\<not> has_toJSON [(''companyId'', JStr ''A''), (''clientId'', JNull)]"
    "\<not> has_toJSON [(''companyId'', JStr ''A'')]"
    "\<not> has_toJSON [(''companyId'', JStr ''B'')]"
    "\<not> has_toJSON [(''amount'', JNum 120)]"
    "\<not> has_toJSON [(''amount'', JNum (- 120))]"
    by (simp_all add: has_toJSON_def f_sparse_def)
  have a: "written_entries f_sparse =
           written_entries [(''companyId'', JStr ''A''), (''clientId'', JNull)]"
    by (simp add: f_sparse_def)
  have b: "written_entries [(''companyId'', JStr ''A'')] \<noteq>
           written_entries [(''companyId'', JStr ''B'')]"
    by simp
  have n: "written_entries [(''amount'', JNum 120)] \<noteq>
           written_entries [(''amount'', JNum (- 120))]"
    by simp
  show ?thesis
    using a b n h(1,2)
      cacheKey_enumeration[OF h(1) h(2), where c = "''checks''"
        and ?o1.0 = default_options and ?o2.0 = "default_options\<lparr>backgroundUpdate := False\<rparr>"]
      cacheKey_enumeration[OF h(3) h(4), where c = "''checks''"
        and ?o1.0 = default_options and ?o2.0 = default_options]
      cacheKey_enumeration[OF h(5) h(6), where c = "''checks''"
        and ?o1.0 = default_options and ?o2.0 = default_options]
    by blast
qed

text \<open>
  C1, as stated, fails in both halves. \<open>{a: 1, b: 2}\<close> and \<open>{b: 2, a: 1}\<close> are the same
  mapping, and their keys differ. \<open>{a: null}\<close>, \<open>{a: NaN}\<close> and \<open>{a: Infinity}\<close> are three
  different mappings, and \<open>{a: f}\<close> with a function \<open>f\<close> is not the empty mapping (the
  query built from it has a constraint); each group shares one key.
\<close>

theorem cacheKey_counterexample:
  "map_of f_ab = map_of f_ba \<and>
   cacheKey \<lparr>collectionName = ''employees'', filters = f_ab, options = default_options\<rparr> \<noteq>
   cacheKey \<lparr>collectionName = ''employees'', filters = f_ba, options = default_options\<rparr> \<and>
   map_of f_nan \<noteq> map_of f_null \<and> map_of f_infinity \<noteq> map_of f_null \<and>
   cacheKey \<lparr>collectionName = ''employees'', filters = f_nan, options = default_options\<rparr> =
   cacheKey \<lparr>collectionName = ''employees'', filters = f_null, options = default_options\<rparr> \<and>
   cacheKey \<lparr>collectionName = ''employees'', filters = f_infinity, options = default_options\<rparr> =
   cacheKey \<lparr>collectionName = ''employees'', filters = f_null, options = default_options\<rparr> \<and>
   q_wheres (build_query ''employees'' f_callback) = [(''a'', JFunction)] \<and>
   q_wheres (build_query ''employees'' []) = [] \<and>
   cacheKey \<lparr>collectionName = ''employees'', filters = f_callback, options = default_options\<rparr> =
   cacheKey \<lparr>collectionName = ''employees'', filters = [], options = default_options\<rparr>"
proof -
  have o: "map_of f_ab = map_of f_ba"
    by (rule ext) (simp add: f_ab_def f_ba_def)
  have k: "json_stringify f_ab \<noteq> json_stringify f_ba"
    by (simp add: json_stringify_def f_ab_def f_ba_def quote_json_string_def quote_char_def)
  have m1: "map_of f_nan \<noteq> map_of f_null"
  proof
    assume "map_of f_nan = map_of f_null"
    then have "map_of f_nan ''a'' = map_of f_null ''a''" by simp
    then show False by (simp add: f_nan_def f_null_def)
  qed
  have m2: "map_of f_infinity \<noteq> map_of f_null"
  proof
    assume "map_of f_infinity = map_of f_null"
    then have "map_of f_infinity ''a'' = map_of f_null ''a''" by simp
    then show False by (simp add: f_infinity_def f_null_def)
  qed
  have s: "json_stringify f_nan = json_stringify f_null"
    "json_stringify f_infinity = json_stringify f_null"
    "json_stringify f_callback = json_stringify []"
    by (simp_all add: json_stringify_def f_nan_def f_null_def f_infinity_def f_callback_def)
  have q: "q_wheres (build_query ''employees'' f_callback) = [(''a'', JFunction)]"
    "q_wheres (build_query ''employees'' []) = []"
    by (simp_all add: build_query_eq f_callback_def)
  show ?thesis using o k m1 m2 s q by (simp add: cacheKey_def)
qed

end
